theory Spec2Isabelle
  imports Complex_Main "HOL-Library.Multiset" "HOL-Library.Log_Nat" "HOL-Library.Code_Target_Numeral"
begin

section \<open>Data model (common.hpp, DataPoint.hpp)\<close>

text \<open>
  \<^verbatim>\<open>typedef float real\<close>: a value of the engine's number type is an IEEE 754 binary32
  number. It is modelled by the real number it denotes; \<open>+\<infinity>\<close>, which only an overflow
  produces, is modelled by \<open>2^128\<close>, the first power of two beyond the floats, and \<open>-\<infinity>\<close>
  by \<open>-2^128\<close>. An operation on floats is the exact operation followed by \<open>to_float\<close>:
  rounding to the nearest float, a tie to the even significand, and to infinity from
  \<open>2^128 - 2^103\<close> on. \<open>to_double\<close> is the same for binary64, in which \<^verbatim>\<open>std::pow\<close> answers.
  A NaN has no counterpart in the model: on finite coordinates no operation of the engine
  produces one.
\<close>

text \<open>The nearest integer, a tie going to the even one.\<close>

definition round_even :: "real \<Rightarrow> int" where
  "round_even x =
     (let f = \<lfloor>x\<rfloor>; d = x - of_int f
      in if d < 1 / 2 then f else if 1 / 2 < d then f + 1 else if even f then f else f + 1)"

text \<open>
  A non-negative \<open>X\<close> rounded to a significand of \<open>p\<close> bits; the unit in the last place is
  \<open>2^k\<close>, and it is 1 for \<open>X\<close> below \<open>2^p\<close>.
\<close>

definition round_sig :: "nat \<Rightarrow> real \<Rightarrow> real" where
  "round_sig p X = (let k = floorlog 2 (nat \<lfloor>X\<rfloor>) - p in 2 ^ k * of_int (round_even (X / 2 ^ k)))"

text \<open>
  A binary format with \<open>p\<close> bits of significand, the smallest positive number \<open>2^-tiny\<close> and
  overflow at \<open>2^big\<close>.
\<close>

definition round_binary :: "nat \<Rightarrow> nat \<Rightarrow> nat \<Rightarrow> real \<Rightarrow> real" where
  "round_binary p tiny big x =
     (let y = round_sig p (\<bar>x\<bar> * 2 ^ tiny) / 2 ^ tiny
      in sgn x * (if 2 ^ big \<le> y then 2 ^ big else y))"

definition to_float :: "real \<Rightarrow> real" where
  "to_float = round_binary 24 149 128"

definition to_double :: "real \<Rightarrow> real" where
  "to_double = round_binary 53 1074 1024"

text \<open>
  \<^verbatim>\<open>UNDEFINED\<close> is \<^verbatim>\<open>std::numeric_limits<float>::max()\<close>, that is \<open>(2^24 - 1) * 2^104\<close>.
\<close>

definition numeric_limits_max :: real where
  "numeric_limits_max = 340282346638528859811704183484516925440"

definition UNDEFINED :: real where
  "UNDEFINED = numeric_limits_max"

text \<open>A \<^verbatim>\<open>DataPoint*\<close> is an address; \<^verbatim>\<open>lhs < rhs\<close> on pointers is \<open><\<close> on addresses.\<close>

type_synonym addr = nat

record DataPoint =
  data :: "real list"
  reachability_distance :: real
  is_processed :: bool

text \<open>
  The objects the pointers refer to. \<open>rlog\<close> is a ghost history: every call of the setter
  \<^verbatim>\<open>DataPoint::reachability_distance(d)\<close> appends the point written, its processed flag and
  its reachability at that moment, and the value written. No function reads it.
\<close>

type_synonym write_event = "addr \<times> bool \<times> real \<times> real"

record store =
  heap :: "addr \<Rightarrow> DataPoint"
  rlog :: "write_event list"

text \<open>The \<^verbatim>\<open>assert\<close>s of the sources; a failed assertion aborts the run.\<close>

datatype abort =
    eps_negative
  | min_pts_zero
  | reachability_negative
  | core_distance_undefined
  | dimension_mismatch
  | index_out_of_range

text \<open>An aborted run is reported with the store as it was when the assertion failed.\<close>

type_synonym 'a outcome = "(abort \<times> store) + 'a"

definition set_reachability_distance :: "store \<Rightarrow> addr \<Rightarrow> real \<Rightarrow> store outcome" where
  "set_reachability_distance s p d =
     (if d \<ge> 0
      then Inr (s\<lparr>heap := (heap s)(p := (heap s p)\<lparr>reachability_distance := d\<rparr>),
                 rlog := rlog s @ [(p, is_processed (heap s p), reachability_distance (heap s p), d)]\<rparr>)
      else Inl (reachability_negative, s))"

definition processed :: "store \<Rightarrow> addr \<Rightarrow> bool \<Rightarrow> store" where
  "processed s p b = s\<lparr>heap := (heap s)(p := (heap s p)\<lparr>is_processed := b\<rparr>)\<rparr>"

section \<open>Helpers of optics.hpp\<close>

subsection \<open>squared_distance\<close>

text \<open>
  The loop \<^verbatim>\<open>ret += std::pow( a_data[i]-b_data[i], 2)\<close>: the difference is a float;
  \<^verbatim>\<open>std::pow\<close> of a float and an \<^verbatim>\<open>int\<close> answers in double; the sum of the float \<open>ret\<close> and
  of that double is a double, and the assignment rounds it to a float.
\<close>

definition squared_distance_loop :: "real list \<Rightarrow> real list \<Rightarrow> nat \<Rightarrow> real" where
  "squared_distance_loop a_data b_data vec_size =
     foldl (\<lambda>ret i. to_float (to_double (ret + to_double ((to_float (a_data ! i - b_data ! i))\<^sup>2))))
       0 [0..<vec_size]"

definition squared_distance :: "store \<Rightarrow> addr \<Rightarrow> addr \<Rightarrow> abort + real" where
  "squared_distance s a b =
     (let a_data = data (heap s a);
          b_data = data (heap s b);
          vec_size = length a_data
      in if vec_size = length b_data
         then Inr (squared_distance_loop a_data b_data vec_size)
         else Inl dimension_mismatch)"

subsection \<open>get_neighbors\<close>

fun get_neighbors_loop :: "store \<Rightarrow> addr \<Rightarrow> real \<Rightarrow> addr list \<Rightarrow> addr list \<Rightarrow> abort + addr list" where
  "get_neighbors_loop s p eps_sq [] ret = Inr ret"
| "get_neighbors_loop s p eps_sq (q # db) ret =
     (case squared_distance s p q of
        Inl a \<Rightarrow> Inl a
      | Inr d \<Rightarrow> get_neighbors_loop s p eps_sq db (if d \<le> eps_sq then ret @ [q] else ret))"

definition get_neighbors :: "store \<Rightarrow> addr \<Rightarrow> real \<Rightarrow> addr list \<Rightarrow> abort + addr list" where
  "get_neighbors s p eps db =
     (if eps \<ge> 0 then get_neighbors_loop s p (to_float (eps * eps)) db [] else Inl eps_negative)"

subsection \<open>squared_core_distance\<close>

text \<open>
  \<^verbatim>\<open>std::nth_element\<close> belongs to the C++ library. Its contract: the range is permuted so
  that position \<open>n\<close> holds the element a full sort would put there, nothing before it is
  greater and nothing after it is smaller. The model is the stable sort by the distance to
  \<open>p\<close>, one rearrangement that meets the contract. Every element of a range of two or more
  is compared at least once, so the lambda's call of \<^verbatim>\<open>squared_distance\<close> aborts as soon as
  one element has another dimension than \<open>p\<close>.
\<close>

fun distances :: "store \<Rightarrow> addr \<Rightarrow> addr list \<Rightarrow> abort + real list" where
  "distances s p [] = Inr []"
| "distances s p (q # qs) =
     (case squared_distance s p q of
        Inl a \<Rightarrow> Inl a
      | Inr d \<Rightarrow> (case distances s p qs of Inl a \<Rightarrow> Inl a | Inr ds \<Rightarrow> Inr (d # ds)))"

definition nth_element :: "store \<Rightarrow> addr \<Rightarrow> addr list \<Rightarrow> abort + addr list" where
  "nth_element s p N_eps =
     (case distances s p N_eps of
        Inl a \<Rightarrow> Inl a
      | Inr ds \<Rightarrow> Inr (map snd (sort_key fst (zip ds N_eps))))"

text \<open>The neighbourhood is passed by reference and reordered in place: it is returned, too.\<close>

definition squared_core_distance :: "store \<Rightarrow> addr \<Rightarrow> nat \<Rightarrow> addr list \<Rightarrow> abort + (real \<times> addr list)" where
  "squared_core_distance s p min_pts N_eps =
     (if min_pts > 0
      then if length N_eps > min_pts
           then (case nth_element s p N_eps of
                   Inl a \<Rightarrow> Inl a
                 | Inr N' \<Rightarrow>
                     (case squared_distance s p (N' ! min_pts) of
                        Inl a \<Rightarrow> Inl a
                      | Inr ret \<Rightarrow> Inr (ret, N')))
           else Inr (UNDEFINED, N_eps)
      else Inl min_pts_zero)"

subsection \<open>The comparison functor and the seed set\<close>

definition Comp_DataPoint_Ptr_f :: "store \<Rightarrow> addr \<Rightarrow> addr \<Rightarrow> abort + bool" where
  "Comp_DataPoint_Ptr_f s lhs rhs =
     (if length (data (heap s lhs)) = length (data (heap s rhs))
      then Inr (if reachability_distance (heap s lhs) < reachability_distance (heap s rhs) then True
                else if reachability_distance (heap s lhs) = reachability_distance (heap s rhs) \<and> lhs < rhs
                     then True
                     else False)
      else Inl dimension_mismatch)"

text \<open>
  \<^verbatim>\<open>DataSet\<close> is \<^verbatim>\<open>std::set<DataPoint*, Comp_DataPoint_Ptr_f>\<close>, a library container: the
  model is the sequence of its elements from \<^verbatim>\<open>begin()\<close> to \<^verbatim>\<open>end()\<close>. The functor reads
  the reachability through the pointer at the moment of each comparison. Insertion and
  erasure by key walk to the first element that is not less than the key, and treat it
  as the key's equal when the key is not less than it either.
\<close>

fun set_insert :: "store \<Rightarrow> addr \<Rightarrow> addr list \<Rightarrow> abort + addr list" where
  "set_insert s x [] = Inr [x]"
| "set_insert s x (y # ys) =
     (case Comp_DataPoint_Ptr_f s y x of
        Inl a \<Rightarrow> Inl a
      | Inr True \<Rightarrow> (case set_insert s x ys of Inl a \<Rightarrow> Inl a | Inr zs \<Rightarrow> Inr (y # zs))
      | Inr False \<Rightarrow>
          (case Comp_DataPoint_Ptr_f s x y of
             Inl a \<Rightarrow> Inl a
           | Inr True \<Rightarrow> Inr (x # y # ys)
           | Inr False \<Rightarrow> Inr (y # ys)))"

fun set_erase :: "store \<Rightarrow> addr \<Rightarrow> addr list \<Rightarrow> abort + addr list" where
  "set_erase s x [] = Inr []"
| "set_erase s x (y # ys) =
     (case Comp_DataPoint_Ptr_f s y x of
        Inl a \<Rightarrow> Inl a
      | Inr True \<Rightarrow> (case set_erase s x ys of Inl a \<Rightarrow> Inl a | Inr zs \<Rightarrow> Inr (y # zs))
      | Inr False \<Rightarrow>
          (case Comp_DataPoint_Ptr_f s x y of
             Inl a \<Rightarrow> Inl a
           | Inr True \<Rightarrow> Inr (y # ys)
           | Inr False \<Rightarrow> Inr ys))"

subsection \<open>update_seeds\<close>

fun update_seeds_loop ::
  "store \<Rightarrow> addr list \<Rightarrow> addr \<Rightarrow> real \<Rightarrow> addr list \<Rightarrow> (store \<times> addr list) outcome" where
  "update_seeds_loop s [] center_object c_dist o_seeds = Inr (s, o_seeds)"
| "update_seeds_loop s (ob # N_eps) center_object c_dist o_seeds =
     (if is_processed (heap s ob)
      then update_seeds_loop s N_eps center_object c_dist o_seeds
      else
        (case squared_distance s center_object ob of
           Inl a \<Rightarrow> Inl (a, s)
         | Inr d \<Rightarrow>
             (let new_r_dist = max c_dist d in
              if reachability_distance (heap s ob) = UNDEFINED
              then (case set_reachability_distance s ob new_r_dist of
                      Inl e \<Rightarrow> Inl e
                    | Inr s1 \<Rightarrow>
                        (case set_insert s1 ob o_seeds of
                           Inl a \<Rightarrow> Inl (a, s1)
                         | Inr seeds1 \<Rightarrow> update_seeds_loop s1 N_eps center_object c_dist seeds1))
              else if new_r_dist < reachability_distance (heap s ob)
              then (case set_erase s ob o_seeds of
                      Inl a \<Rightarrow> Inl (a, s)
                    | Inr seeds0 \<Rightarrow>
                        (case set_reachability_distance s ob new_r_dist of
                           Inl e \<Rightarrow> Inl e
                         | Inr s1 \<Rightarrow>
                             (case set_insert s1 ob seeds0 of
                                Inl a \<Rightarrow> Inl (a, s1)
                              | Inr seeds1 \<Rightarrow> update_seeds_loop s1 N_eps center_object c_dist seeds1)))
              else update_seeds_loop s N_eps center_object c_dist o_seeds)))"

definition update_seeds ::
  "store \<Rightarrow> addr list \<Rightarrow> addr \<Rightarrow> real \<Rightarrow> addr list \<Rightarrow> (store \<times> addr list) outcome" where
  "update_seeds s N_eps center_object c_dist o_seeds =
     (if c_dist \<noteq> UNDEFINED
      then update_seeds_loop s N_eps center_object c_dist o_seeds
      else Inl (core_distance_undefined, s))"

section \<open>The ordering algorithm, non-callback version\<close>

text \<open>
  The \<^verbatim>\<open>while( !seeds.empty())\<close> loop of \<^verbatim>\<open>expand_cluster_order\<close>. Nothing in its text
  bounds the number of rounds, so it is a partial function: \<open>None\<close> is a run that never
  leaves the loop.
\<close>

partial_function (option) seeds_loop ::
  "store \<Rightarrow> addr list \<Rightarrow> real \<Rightarrow> nat \<Rightarrow> addr list \<Rightarrow> addr list \<Rightarrow> (addr list \<times> store) outcome option" where
  "seeds_loop s db eps min_pts o_ordered_vector seeds =
     (case seeds of
        [] \<Rightarrow> Some (Inr (o_ordered_vector, s))
      | q # seeds' \<Rightarrow>
          (case get_neighbors s q eps db of
             Inl a \<Rightarrow> Some (Inl (a, s))
           | Inr N_q \<Rightarrow>
               (case squared_core_distance s q min_pts N_q of
                  Inl a \<Rightarrow> Some (Inl (a, s))
                | Inr (core_dist_q, N_q') \<Rightarrow>
                    (let s1 = processed s q True;
                         ordered1 = o_ordered_vector @ [q]
                     in if core_dist_q \<noteq> UNDEFINED
                        then (case update_seeds s1 N_q' q core_dist_q seeds' of
                                Inl e \<Rightarrow> Some (Inl e)
                              | Inr (s2, seeds2) \<Rightarrow> seeds_loop s2 db eps min_pts ordered1 seeds2)
                        else seeds_loop s1 db eps min_pts ordered1 seeds'))))"

declare seeds_loop.simps [code]

definition expand_cluster_order ::
  "store \<Rightarrow> addr list \<Rightarrow> addr \<Rightarrow> real \<Rightarrow> nat \<Rightarrow> addr list \<Rightarrow> (addr list \<times> store) outcome option" where
  "expand_cluster_order s db p eps min_pts o_ordered_vector =
     (if \<not> eps \<ge> 0 then Some (Inl (eps_negative, s))
      else if \<not> min_pts > 0 then Some (Inl (min_pts_zero, s))
      else
        (case get_neighbors s p eps db of
           Inl a \<Rightarrow> Some (Inl (a, s))
         | Inr N_eps \<Rightarrow>
             (case set_reachability_distance s p UNDEFINED of
                Inl e \<Rightarrow> Some (Inl e)
              | Inr s1 \<Rightarrow>
                  (case squared_core_distance s1 p min_pts N_eps of
                     Inl a \<Rightarrow> Some (Inl (a, s1))
                   | Inr (core_dist_p, N_eps') \<Rightarrow>
                       (let s2 = processed s1 p True;
                            ordered1 = o_ordered_vector @ [p]
                        in if core_dist_p = UNDEFINED
                           then Some (Inr (ordered1, s2))
                           else (case update_seeds s2 N_eps' p core_dist_p [] of
                                   Inl e \<Rightarrow> Some (Inl e)
                                 | Inr (s3, seeds) \<Rightarrow> seeds_loop s3 db eps min_pts ordered1 seeds))))))"

text \<open>The \<^verbatim>\<open>for\<close> loop of \<^verbatim>\<open>optics\<close>: the second list is what the iterator has still to visit.\<close>

fun optics_loop ::
  "store \<Rightarrow> addr list \<Rightarrow> addr list \<Rightarrow> real \<Rightarrow> nat \<Rightarrow> addr list \<Rightarrow> (addr list \<times> store) outcome option" where
  "optics_loop s db [] eps min_pts ret = Some (Inr (ret, s))"
| "optics_loop s db (p # rest) eps min_pts ret =
     (if is_processed (heap s p)
      then optics_loop s db rest eps min_pts ret
      else (case expand_cluster_order s db p eps min_pts ret of
              None \<Rightarrow> None
            | Some (Inl e) \<Rightarrow> Some (Inl e)
            | Some (Inr (ret', s')) \<Rightarrow> optics_loop s' db rest eps min_pts ret'))"

definition optics :: "store \<Rightarrow> addr list \<Rightarrow> real \<Rightarrow> nat \<Rightarrow> (addr list \<times> store) outcome option" where
  "optics s db eps min_pts =
     (if \<not> eps \<ge> 0 then Some (Inl (eps_negative, s))
      else if \<not> min_pts > 0 then Some (Inl (min_pts_zero, s))
      else optics_loop s db db eps min_pts [])"

section \<open>The ordering algorithm, callback version\<close>

text \<open>
  \<^verbatim>\<open>std::function<void(const DataPoint* p)>\<close>: the callback sees the store and the pointer
  it is given, and acts on a state \<open>'u\<close> of its owner.
\<close>

type_synonym 'u callback = "store \<Rightarrow> addr \<Rightarrow> 'u \<Rightarrow> 'u"

partial_function (option) seeds_loop_cb ::
  "store \<Rightarrow> addr list \<Rightarrow> addr \<Rightarrow> real \<Rightarrow> nat \<Rightarrow> addr list \<Rightarrow> 'u callback \<Rightarrow> 'u \<Rightarrow> addr list
     \<Rightarrow> (addr list \<times> store \<times> 'u) outcome option" where
  "seeds_loop_cb s db p eps min_pts o_ordered_vector point_processed_callback u seeds =
     (case seeds of
        [] \<Rightarrow> Some (Inr (o_ordered_vector, s, u))
      | q # seeds' \<Rightarrow>
          (case get_neighbors s q eps db of
             Inl a \<Rightarrow> Some (Inl (a, s))
           | Inr N_q \<Rightarrow>
               (case squared_core_distance s q min_pts N_q of
                  Inl a \<Rightarrow> Some (Inl (a, s))
                | Inr (core_dist_q, N_q') \<Rightarrow>
                    (let s1 = processed s q True;
                         ordered1 = o_ordered_vector @ [q];
                         u1 = point_processed_callback s1 p u
                     in if core_dist_q \<noteq> UNDEFINED
                        then (case update_seeds s1 N_q' q core_dist_q seeds' of
                                Inl e \<Rightarrow> Some (Inl e)
                              | Inr (s2, seeds2) \<Rightarrow>
                                  seeds_loop_cb s2 db p eps min_pts ordered1 point_processed_callback u1 seeds2)
                        else seeds_loop_cb s1 db p eps min_pts ordered1 point_processed_callback u1 seeds'))))"

declare seeds_loop_cb.simps [code]

definition expand_cluster_order_cb ::
  "store \<Rightarrow> addr list \<Rightarrow> addr \<Rightarrow> real \<Rightarrow> nat \<Rightarrow> addr list \<Rightarrow> 'u callback \<Rightarrow> 'u
     \<Rightarrow> (addr list \<times> store \<times> 'u) outcome option" where
  "expand_cluster_order_cb s db p eps min_pts o_ordered_vector point_processed_callback u =
     (if \<not> eps \<ge> 0 then Some (Inl (eps_negative, s))
      else if \<not> min_pts > 0 then Some (Inl (min_pts_zero, s))
      else
        (case get_neighbors s p eps db of
           Inl a \<Rightarrow> Some (Inl (a, s))
         | Inr N_eps \<Rightarrow>
             (case set_reachability_distance s p UNDEFINED of
                Inl e \<Rightarrow> Some (Inl e)
              | Inr s1 \<Rightarrow>
                  (case squared_core_distance s1 p min_pts N_eps of
                     Inl a \<Rightarrow> Some (Inl (a, s1))
                   | Inr (core_dist_p, N_eps') \<Rightarrow>
                       (let s2 = processed s1 p True;
                            ordered1 = o_ordered_vector @ [p];
                            u1 = point_processed_callback s2 p u
                        in if core_dist_p = UNDEFINED
                           then Some (Inr (ordered1, s2, u1))
                           else (case update_seeds s2 N_eps' p core_dist_p [] of
                                   Inl e \<Rightarrow> Some (Inl e)
                                 | Inr (s3, seeds) \<Rightarrow>
                                     seeds_loop_cb s3 db p eps min_pts ordered1
                                       point_processed_callback u1 seeds))))))"

fun optics_loop_cb ::
  "store \<Rightarrow> addr list \<Rightarrow> addr list \<Rightarrow> real \<Rightarrow> nat \<Rightarrow> addr list \<Rightarrow> 'u callback \<Rightarrow> 'u
     \<Rightarrow> (addr list \<times> store \<times> 'u) outcome option" where
  "optics_loop_cb s db [] eps min_pts ret point_processed_callback u = Some (Inr (ret, s, u))"
| "optics_loop_cb s db (p # rest) eps min_pts ret point_processed_callback u =
     (if is_processed (heap s p)
      then optics_loop_cb s db rest eps min_pts ret point_processed_callback u
      else (case expand_cluster_order_cb s db p eps min_pts ret point_processed_callback u of
              None \<Rightarrow> None
            | Some (Inl e) \<Rightarrow> Some (Inl e)
            | Some (Inr (ret', s', u')) \<Rightarrow>
                optics_loop_cb s' db rest eps min_pts ret' point_processed_callback u'))"

definition optics_cb ::
  "store \<Rightarrow> addr list \<Rightarrow> real \<Rightarrow> nat \<Rightarrow> 'u callback \<Rightarrow> 'u \<Rightarrow> (addr list \<times> store \<times> 'u) outcome option" where
  "optics_cb s db eps min_pts point_processed_callback u =
     (if \<not> eps \<ge> 0 then Some (Inl (eps_negative, s))
      else if \<not> min_pts > 0 then Some (Inl (min_pts_zero, s))
      else optics_loop_cb s db db eps min_pts [] point_processed_callback u)"

section \<open>extract_clusters\<close>

text \<open>
  The inner loop runs \<open>j\<close> over \<open>[lower_idx..<upper_idx]\<close>; \<^verbatim>\<open>result[j]\<close> past the end of the
  vector is an abort of the model. \<open>ret\<close> always has its outlier container at index 0.
\<close>

fun cluster_i_loop ::
  "store \<Rightarrow> addr list \<Rightarrow> real \<Rightarrow> nat list \<Rightarrow> addr list list \<Rightarrow> addr list
     \<Rightarrow> abort + (addr list list \<times> addr list)" where
  "cluster_i_loop s result outlier_threshold [] ret cluster_i = Inr (ret, cluster_i)"
| "cluster_i_loop s result outlier_threshold (j # js) ret cluster_i =
     (if j < length result
      then (let p = result ! j
            in if reachability_distance (heap s p) > outlier_threshold
               then cluster_i_loop s result outlier_threshold js (ret[0 := ret ! 0 @ [p]]) cluster_i
               else cluster_i_loop s result outlier_threshold js ret (cluster_i @ [p]))
      else Inl index_out_of_range)"

fun extract_clusters_loop ::
  "store \<Rightarrow> addr list \<Rightarrow> nat list \<Rightarrow> real \<Rightarrow> nat list \<Rightarrow> addr list list \<Rightarrow> abort + addr list list" where
  "extract_clusters_loop s result cluster_borders outlier_threshold [] ret = Inr ret"
| "extract_clusters_loop s result cluster_borders outlier_threshold (i # is) ret =
     (let lower_idx = (if i = 0 then 0 else cluster_borders ! (i - 1));
          upper_idx = (if i = length cluster_borders then length result else cluster_borders ! i)
      in case cluster_i_loop s result outlier_threshold [lower_idx..<upper_idx] ret [] of
           Inl a \<Rightarrow> Inl a
         | Inr (ret1, cluster_i) \<Rightarrow>
             extract_clusters_loop s result cluster_borders outlier_threshold is (ret1 @ [cluster_i]))"

definition extract_clusters :: "store \<Rightarrow> addr list \<Rightarrow> nat list \<Rightarrow> real \<Rightarrow> abort + addr list list" where
  "extract_clusters s result cluster_borders outlier_threshold =
     (let ret = [[]];
          outlier_threshold' = (if outlier_threshold \<le> 0 then numeric_limits_max else outlier_threshold)
      in extract_clusters_loop s result cluster_borders outlier_threshold'
           [0..<Suc (length cluster_borders)] ret)"

section \<open>find_k_histogram_peaks\<close>

record TPairedExtrema =
  MinIndex :: nat
  MaxIndex :: nat
  Persistence :: real

text \<open>
  The loop \<^verbatim>\<open>for( int i=extrema.size()-1; i>=0 && n<n_clusters; --i, ++n)\<close>; the second
  argument is \<open>i + 1\<close>.
\<close>

fun peaks_loop :: "TPairedExtrema list \<Rightarrow> nat \<Rightarrow> nat \<Rightarrow> nat \<Rightarrow> nat list \<Rightarrow> nat list" where
  "peaks_loop extrema 0 n n_clusters ret = ret"
| "peaks_loop extrema (Suc i) n n_clusters ret =
     (if n < n_clusters
      then peaks_loop extrema i (Suc n) n_clusters (ret @ [MaxIndex (extrema ! i)])
      else ret)"

text \<open>
  \<^verbatim>\<open>p1d::Persistence1D\<close> is a library outside the repository: \<open>RunPersistence\<close> followed by
  \<open>GetPairedExtrema\<close> with a threshold is the parameter \<open>GetPairedExtrema\<close>.
\<close>

definition find_k_histogram_peaks ::
  "(real list \<Rightarrow> real \<Rightarrow> TPairedExtrema list) \<Rightarrow> real list \<Rightarrow> nat \<Rightarrow> nat list" where
  "find_k_histogram_peaks GetPairedExtrema reachabilities n_clusters =
     (let extrema = GetPairedExtrema reachabilities 0
      in peaks_loop extrema (length extrema) 1 n_clusters [])"

section \<open>Notions of the specification and example inputs\<close>

text \<open>
  The squared distance of two points as \<^verbatim>\<open>squared_distance\<close> computes it, in floats; it
  differs from the specification's \<open>d\<^sup>2(a,b) = \<Sum> (a\<^sub>i - b\<^sub>i)\<^sup>2\<close> by the roundings.
\<close>

definition dist2 :: "store \<Rightarrow> addr \<Rightarrow> addr \<Rightarrow> real" where
  "dist2 s a b = squared_distance_loop (data (heap s a)) (data (heap s b)) (length (data (heap s a)))"

text \<open>A finite float, and a dataset whose coordinates are finite floats.\<close>

definition finite_float :: "real \<Rightarrow> bool" where
  "finite_float x \<longleftrightarrow> to_float x = x \<and> \<bar>x\<bar> < 2 ^ 128"

definition float_coordinates :: "store \<Rightarrow> addr list \<Rightarrow> bool" where
  "float_coordinates s db \<longleftrightarrow> (\<forall>p\<in>set db. \<forall>x\<in>set (data (heap s p)). finite_float x)"

text \<open>The specification's \<open>k\<close>-th order statistic, counted from 0 at the smallest value.\<close>

definition order_statistic :: "nat \<Rightarrow> real list \<Rightarrow> real" where
  "order_statistic k xs = sort xs ! k"

text \<open>A point as the constructor \<^verbatim>\<open>DataPoint()\<close> leaves it, with its coordinates pushed.\<close>

definition fresh_point :: "real list \<Rightarrow> DataPoint" where
  "fresh_point xs = \<lparr>data = xs, reachability_distance = UNDEFINED, is_processed = False\<rparr>"

text \<open>The specification's scenario 2: the points \<open>(0,0)\<close> and \<open>(1,0)\<close> at the addresses 0 and 1.\<close>

definition two_points :: store where
  "two_points = \<lparr>heap = (\<lambda>_. fresh_point [])(0 := fresh_point [0, 0], 1 := fresh_point [1, 0]), rlog = []\<rparr>"

text \<open>Coordinates \<open>n * 2^e\<close> for integers \<open>n\<close>.\<close>

definition grid :: "nat \<Rightarrow> int list \<Rightarrow> real list" where
  "grid e ns = map (\<lambda>n. of_int n * 2 ^ e) ns"


text \<open>
  Two fresh points \<open>(0)\<close> and \<open>(2^64)\<close>: the square of their difference is \<open>2^128\<close> and overflows.
  \<open>far_points_done\<close> is the store after a run on them with \<open>eps = 2^64\<close> and \<open>min_pts = 1\<close>.
\<close>

definition far_points :: store where
  "far_points =
     \<lparr>heap = (\<lambda>_. fresh_point [])(0 := fresh_point (grid 64 [0]), 1 := fresh_point (grid 64 [1])),
      rlog = []\<rparr>"

definition far_points_done :: store where
  "far_points_done =
     \<lparr>heap = (\<lambda>_. fresh_point [])
        (0 := \<lparr>data = grid 64 [0], reachability_distance = UNDEFINED, is_processed = True\<rparr>,
         1 := \<lparr>data = grid 64 [1], reachability_distance = 2 ^ 128, is_processed = True\<rparr>),
      rlog = [(0, False, UNDEFINED, UNDEFINED), (1, False, UNDEFINED, 2 ^ 128)]\<rparr>"

text \<open>A callback whose owner keeps the list of the pointers it was given.\<close>

definition record_handle :: "addr list callback" where
  "record_handle s p u = u @ [p]"

text \<open>
  The segment \<open>i\<close> of the ordering is \<open>[lower_idx i, upper_idx i)\<close>, between two neighbours of
  the list \<open>0, b\<^sub>1, \<dots>, b\<^sub>m, n\<close>. An outlier is a point above the threshold, where a threshold
  \<open>\<le> 0\<close> stands for the largest float.
\<close>

definition lower_idx :: "nat list \<Rightarrow> nat \<Rightarrow> nat" where
  "lower_idx cluster_borders i = (0 # cluster_borders) ! i"

definition upper_idx :: "addr list \<Rightarrow> nat list \<Rightarrow> nat \<Rightarrow> nat" where
  "upper_idx result cluster_borders i = (cluster_borders @ [length result]) ! i"

definition segment :: "addr list \<Rightarrow> nat list \<Rightarrow> nat \<Rightarrow> addr list" where
  "segment result cluster_borders i =
     drop (lower_idx cluster_borders i) (take (upper_idx result cluster_borders i) result)"

definition effective_threshold :: "real \<Rightarrow> real" where
  "effective_threshold t = (if t \<le> 0 then numeric_limits_max else t)"

definition is_outlier :: "store \<Rightarrow> real \<Rightarrow> addr \<Rightarrow> bool" where
  "is_outlier s t p \<longleftrightarrow> reachability_distance (heap s p) > effective_threshold t"

definition borders_in_range :: "addr list \<Rightarrow> nat list \<Rightarrow> bool" where
  "borders_in_range result cluster_borders = list_all (\<lambda>b. b \<le> length result) cluster_borders"

text \<open>Paired extrema in ascending persistence, as a stand-in for the library's answer.\<close>

definition three_extrema :: "real list \<Rightarrow> real \<Rightarrow> TPairedExtrema list" where
  "three_extrema r t =
     [\<lparr>MinIndex = 0, MaxIndex = 1, Persistence = 1\<rparr>,
      \<lparr>MinIndex = 4, MaxIndex = 5, Persistence = 2\<rparr>,
      \<lparr>MinIndex = 2, MaxIndex = 3, Persistence = 7\<rparr>]"

section \<open>Invariants of a run\<close>

text \<open>The answer of the comparison functor when its assertions hold.\<close>

definition key_less :: "store \<Rightarrow> addr \<Rightarrow> addr \<Rightarrow> bool" where
  "key_less s a b \<longleftrightarrow>
     reachability_distance (heap s a) < reachability_distance (heap s b)
   \<or> (reachability_distance (heap s a) = reachability_distance (heap s b) \<and> a < b)"

text \<open>
  A dataset the engine is meant for: the points have one dimension, and every squared
  distance the engine computes between two of them is below the sentinel. \<^verbatim>\<open>update_seeds\<close> relies on the
  latter where it notes \<^verbatim>\<open>new_r_dist != UNDEFINED\<close> and takes a reachability of
  \<^verbatim>\<open>UNDEFINED\<close> to mean that the point is not among the seeds.
\<close>

definition same_dim :: "store \<Rightarrow> addr list \<Rightarrow> bool" where
  "same_dim s db \<longleftrightarrow> (\<forall>a\<in>set db. \<forall>b\<in>set db. length (data (heap s a)) = length (data (heap s b)))"

definition dist_below :: "store \<Rightarrow> addr list \<Rightarrow> bool" where
  "dist_below s db \<longleftrightarrow> (\<forall>a\<in>set db. \<forall>b\<in>set db. dist2 s a b < UNDEFINED)"

definition all_unprocessed :: "store \<Rightarrow> addr list \<Rightarrow> bool" where
  "all_unprocessed s db \<longleftrightarrow> (\<forall>p\<in>set db. \<not> is_processed (heap s p))"

definition all_processed :: "store \<Rightarrow> addr list \<Rightarrow> bool" where
  "all_processed s db \<longleftrightarrow> (\<forall>p\<in>set db. is_processed (heap s p))"

definition all_fresh :: "store \<Rightarrow> addr list \<Rightarrow> bool" where
  "all_fresh s db \<longleftrightarrow>
     (\<forall>p\<in>set db. \<not> is_processed (heap s p) \<and> reachability_distance (heap s p) = UNDEFINED)"

text \<open>
  The seed set between two operations: in the functor's order under the current
  reachabilities, and made of unprocessed points of the dataset whose reachability is set.
\<close>

definition seeds_inv :: "store \<Rightarrow> addr list \<Rightarrow> addr list \<Rightarrow> bool" where
  "seeds_inv s db seeds \<longleftrightarrow>
     sorted_wrt (key_less s) seeds \<and> set seeds \<subseteq> set db
   \<and> (\<forall>q\<in>set seeds. \<not> is_processed (heap s q) \<and> reachability_distance (heap s q) \<noteq> UNDEFINED)"

text \<open>
  A write of the reachability that the specification allows: to an unprocessed point, and
  either writing over \<open>UNDEFINED\<close> (with a finite value, or with \<open>UNDEFINED\<close> again, which
  is no transition), or writing a strictly smaller value over a finite one.
\<close>

definition monotone_write :: "write_event \<Rightarrow> bool" where
  "monotone_write w =
     (case w of (p, was_processed, old, new) \<Rightarrow>
        \<not> was_processed \<and> 0 \<le> new
      \<and> ((old = UNDEFINED \<and> new \<le> UNDEFINED) \<or> (old < UNDEFINED \<and> new < old)))"

text \<open>
  No reachability above the sentinel, and every unprocessed point with a set reachability
  is in the seed set.
\<close>

definition tidy :: "store \<Rightarrow> addr list \<Rightarrow> addr list \<Rightarrow> bool" where
  "tidy s db seeds \<longleftrightarrow>
     (\<forall>h\<in>set db. reachability_distance (heap s h) \<le> UNDEFINED
        \<and> (\<not> is_processed (heap s h) \<and> reachability_distance (heap s h) \<noteq> UNDEFINED \<longrightarrow> h \<in> set seeds))"

text \<open>
  Replaying a history of setter calls on the reachabilities of all points: every event
  must find the old value it recorded.
\<close>

fun replay :: "(addr \<Rightarrow> real) \<Rightarrow> write_event list \<Rightarrow> (addr \<Rightarrow> real) option" where
  "replay r [] = Some r"
| "replay r ((p, was_processed, old, new) # ws) =
     (if r p = old then replay (\<lambda>h. if h = p then new else r h) ws else None)"

text \<open>
  What a piece of the run may do to the store, from \<open>s\<close> with seed set \<open>seeds\<close> to \<open>s'\<close> with
  \<open>seeds'\<close>: coordinates stay; a processed point stays as it is; the setter is called on
  points that are unprocessed, and its calls account for every change of a reachability;
  and from a tidy store the writes are monotone and the
  store stays tidy.
\<close>

definition step :: "addr list \<Rightarrow> store \<Rightarrow> addr list \<Rightarrow> store \<Rightarrow> addr list \<Rightarrow> bool" where
  "step db s seeds s' seeds' \<longleftrightarrow>
     (\<forall>h. data (heap s' h) = data (heap s h))
   \<and> (\<forall>h. is_processed (heap s h) \<longrightarrow> heap s' h = heap s h)
   \<and> (\<exists>ws. rlog s' = rlog s @ ws
          \<and> replay (\<lambda>h. reachability_distance (heap s h)) ws
                = Some (\<lambda>h. reachability_distance (heap s' h))
          \<and> (\<forall>w\<in>set ws. \<not> is_processed (heap s (fst w)) \<and> \<not> fst (snd w))
          \<and> (tidy s db seeds \<longrightarrow> (\<forall>w\<in>set ws. monotone_write w)))
   \<and> (tidy s db seeds \<longrightarrow> tidy s' db seeds')"

text \<open>The points appended to the ordering are those that became processed, each once.\<close>

definition emitted :: "addr list \<Rightarrow> store \<Rightarrow> store \<Rightarrow> addr list \<Rightarrow> addr list \<Rightarrow> bool" where
  "emitted db s s' ordered ordered' \<longleftrightarrow>
     (\<exists>new. ordered' = ordered @ new \<and> distinct new
        \<and> set new = {h \<in> set db. is_processed (heap s' h) \<and> \<not> is_processed (heap s h)})"

text \<open>
  One point \<open>(0)\<close> at the address 0, with a given reachability and processed flag: as a
  finished run leaves it, as its constructor leaves it, and unprocessed with a reachability
  left over. \<open>after_expand\<close> is such a store after the point was expanded alone.
\<close>

definition one_point :: "real \<Rightarrow> bool \<Rightarrow> store" where
  "one_point r b = \<lparr>heap = (\<lambda>_. \<lparr>data = [0], reachability_distance = r, is_processed = b\<rparr>), rlog = []\<rparr>"

definition one_processed :: store where
  "one_processed = one_point 1 True"

definition one_fresh :: store where
  "one_fresh = one_point UNDEFINED False"

definition one_stale :: store where
  "one_stale = one_point 1 False"

definition after_expand :: "store \<Rightarrow> store" where
  "after_expand s =
     \<lparr>heap = (heap s)(0 := \<lparr>data = [0], reachability_distance = UNDEFINED, is_processed = True\<rparr>),
      rlog = [(0, False, reachability_distance (heap s 0), UNDEFINED)]\<rparr>"

section \<open>Float arithmetic\<close>

lemma round_even_of_int: "round_even (of_int n) = n"
  by (simp add: round_even_def)

lemma round_even_nonneg: "0 \<le> x \<Longrightarrow> 0 \<le> round_even x"
  by (auto simp: round_even_def Let_def)

lemma round_sig_nonneg: "0 \<le> X \<Longrightarrow> 0 \<le> round_sig p X"
  by (simp add: round_sig_def Let_def round_even_nonneg)

lemma round_sig_exact:
  assumes "m < 2 ^ p"
  shows "round_sig p (of_nat m * 2 ^ j) = of_nat m * 2 ^ j"
proof (cases "m = 0")
  case True
  then show ?thesis by (simp add: round_sig_def round_even_def)
next
  case False
  define k where "k = floorlog 2 (m * 2 ^ j) - p"
  have fl: "floorlog 2 (m * 2 ^ j) = floorlog 2 m + j" using False by simp
  have "floorlog 2 m \<le> p" using assms by (simp add: floorlog_le_iff)
  then have kj: "k \<le> j" unfolding k_def fl by simp
  have X: "(of_nat m * 2 ^ j :: real) = of_nat (m * 2 ^ j)" by simp
  have fX: "nat \<lfloor>(of_nat m * 2 ^ j :: real)\<rfloor> = m * 2 ^ j"
    unfolding X by (simp only: floor_of_nat nat_int)
  have "(2::real) ^ j = 2 ^ (j - k) * 2 ^ k" using kj by (simp add: power_add[symmetric])
  then have "(of_nat m * 2 ^ j :: real) / 2 ^ k = of_int (int (m * 2 ^ (j - k)))" by simp
  then have "round_even ((of_nat m * 2 ^ j :: real) / 2 ^ k) = int (m * 2 ^ (j - k))"
    by (simp only: round_even_of_int)
  then have "round_sig p (of_nat m * 2 ^ j) = 2 ^ k * of_int (int (m * 2 ^ (j - k)))"
    unfolding round_sig_def Let_def fX k_def[symmetric] by simp
  also have "\<dots> = of_nat m * (2 ^ (j - k) * 2 ^ k)" by simp
  also have "\<dots> = of_nat m * 2 ^ j" using kj by (simp add: power_add[symmetric])
  finally show ?thesis .
qed

lemma round_binary_exact:
  assumes "m < 2 ^ p" "of_nat m * 2 ^ e \<le> (2::real) ^ big"
  shows "round_binary p tiny big (of_nat m * 2 ^ e) = of_nat m * 2 ^ e"
proof -
  let ?x = "of_nat m * 2 ^ e :: real"
  have nn: "0 \<le> ?x" by simp
  have a: "\<bar>?x\<bar> * 2 ^ tiny = of_nat m * 2 ^ (e + tiny)" by (simp add: power_add)
  have "round_sig p (\<bar>?x\<bar> * 2 ^ tiny) = of_nat m * 2 ^ (e + tiny)"
    unfolding a using assms(1) by (rule round_sig_exact)
  then have y: "round_sig p (\<bar>?x\<bar> * 2 ^ tiny) / 2 ^ tiny = ?x" by (simp add: power_add)
  have "sgn ?x * ?x = ?x" using nn by (cases "m = 0") (simp_all add: sgn_if)
  then show ?thesis unfolding round_binary_def Let_def y using assms(2) by auto
qed

lemma round_binary_minus: "round_binary p tiny big (- x) = - round_binary p tiny big x"
  by (simp add: round_binary_def Let_def sgn_minus)

lemma round_binary_nonneg: "0 \<le> x \<Longrightarrow> 0 \<le> round_binary p tiny big x"
proof -
  assume x: "0 \<le> x"
  have "0 \<le> round_sig p (\<bar>x\<bar> * 2 ^ tiny) / 2 ^ tiny" by (simp add: round_sig_nonneg)
  then show ?thesis using x by (simp add: round_binary_def Let_def sgn_if)
qed

lemma round_binary_0: "round_binary p tiny big 0 = 0"
  by (simp add: round_binary_def)

lemma round_binary_int:
  assumes "\<bar>n\<bar> < 2 ^ p" "\<bar>of_int n\<bar> * 2 ^ e \<le> (2::real) ^ big"
  shows "round_binary p tiny big (of_int n * 2 ^ e) = of_int n * 2 ^ e"
proof (cases "0 \<le> n")
  case True
  then have "of_int n = (of_nat (nat n) :: real)" by simp
  moreover have "nat n < 2 ^ p" using assms(1) True by (simp add: nat_less_iff)
  ultimately show ?thesis using round_binary_exact[of "nat n" p e big tiny] assms(2) True by simp
next
  case False
  then have e: "of_int n = - (of_nat (nat (- n)) :: real)" by simp
  have "nat (- n) < 2 ^ p" using assms(1) False by (simp add: nat_less_iff)
  moreover have "of_nat (nat (- n)) * 2 ^ e \<le> (2::real) ^ big" using assms(2) False by simp
  ultimately have "round_binary p tiny big (of_nat (nat (- n)) * 2 ^ e) = of_nat (nat (- n)) * 2 ^ e"
    by (rule round_binary_exact)
  then show ?thesis unfolding e using round_binary_minus[of p tiny big "of_nat (nat (- n)) * 2 ^ e"]
    by simp
qed

lemma to_float_0: "to_float 0 = 0" and to_double_0: "to_double 0 = 0"
  by (simp_all add: to_float_def to_double_def round_binary_0)

lemma to_float_nonneg: "0 \<le> x \<Longrightarrow> 0 \<le> to_float x"
  and to_double_nonneg: "0 \<le> x \<Longrightarrow> 0 \<le> to_double x"
  by (simp_all add: to_float_def to_double_def round_binary_nonneg)

lemma to_float_int:
  "\<bar>n\<bar> < 2 ^ 24 \<Longrightarrow> \<bar>of_int n\<bar> * 2 ^ e \<le> (2::real) ^ 128 \<Longrightarrow> to_float (of_int n * 2 ^ e) = of_int n * 2 ^ e"
  unfolding to_float_def by (rule round_binary_int)

lemma to_double_int:
  "\<bar>n\<bar> < 2 ^ 53 \<Longrightarrow> \<bar>of_int n\<bar> * 2 ^ e \<le> (2::real) ^ 1024 \<Longrightarrow> to_double (of_int n * 2 ^ e) = of_int n * 2 ^ e"
  unfolding to_double_def by (rule round_binary_int)

lemma float_evals:
  "to_float 0 = 0" "to_float 1 = 1" "to_float (- 1) = - 1" "to_float 4 = 4"
  "to_double 0 = 0" "to_double 1 = 1"
  "to_float 340282366920938463463374607431768211456 = 340282366920938463463374607431768211456"
  using to_float_int[of 0 0] to_float_int[of 1 0] to_float_int[of "- 1" 0] to_float_int[of 1 2]
    to_double_int[of 0 0] to_double_int[of 1 0] to_float_int[of 1 128]
  by simp_all

section \<open>Evaluation of the model on concrete inputs\<close>

lemmas eval_defs = optics_def expand_cluster_order_def get_neighbors_def squared_distance_def
   squared_distance_loop_def float_evals
   set_reachability_distance_def UNDEFINED_def numeric_limits_max_def squared_core_distance_def nth_element_def
    processed_def update_seeds_def Comp_DataPoint_Ptr_f_def optics_cb_def expand_cluster_order_cb_def

section \<open>Distances and the core distance\<close>

lemma foldl_invariant:
  "P a \<Longrightarrow> (\<And>r x. P r \<Longrightarrow> x \<in> set xs \<Longrightarrow> P (f r x)) \<Longrightarrow> P (foldl f a xs)"
  by (induction xs arbitrary: a) simp_all

lemma squared_distance_loop_nonneg: "0 \<le> squared_distance_loop a_data b_data n"
  unfolding squared_distance_loop_def
  by (rule foldl_invariant) (simp_all add: to_float_nonneg to_double_nonneg)

lemma squared_distance_loop_self: "squared_distance_loop a_data a_data n = 0"
  unfolding squared_distance_loop_def
  by (rule foldl_invariant[where P = "\<lambda>r. r = 0"]) (simp_all add: to_float_0 to_double_0)

text \<open>Partial sums of the squared differences of two integer vectors.\<close>

lemma squared_distance_loop_grid_partial:
  assumes "length as = length bs" "n \<le> length as"
    and "(\<Sum>i<length as. (as ! i - bs ! i)\<^sup>2) < 2 ^ 24"
    and "of_int (\<Sum>i<length as. (as ! i - bs ! i)\<^sup>2) * 2 ^ (2 * e) \<le> (2::real) ^ 128"
  shows "squared_distance_loop (grid e as) (grid e bs) n
       = of_int (\<Sum>i<n. (as ! i - bs ! i)\<^sup>2) * 2 ^ (2 * e)"
  using assms(2)
proof (induction n)
  case 0
  then show ?case by (simp add: squared_distance_loop_def)
next
  case (Suc n)
  let ?S = "\<lambda>k. \<Sum>i<k. (as ! i - bs ! i)\<^sup>2"
  let ?d = "as ! n - bs ! n"
  have n: "n < length as" "n < length bs" using Suc.prems assms(1) by simp_all
  have mono: "?S (Suc n) \<le> ?S (length as)"
    by (rule sum_mono2) (use Suc.prems in \<open>auto\<close>)
  have Sn: "?S (Suc n) = ?S n + ?d\<^sup>2" by simp
  have Sn_nonneg: "0 \<le> ?S n" by (simp add: sum_nonneg)
  have small: "?S (Suc n) < 2 ^ 24" using mono assms(3) by linarith
  have d2: "?d\<^sup>2 < 2 ^ 24" using small Sn Sn_nonneg by linarith
  have "\<bar>?d\<bar>\<^sup>2 < (2 ^ 12)\<^sup>2" using d2 by simp
  then have dabs: "\<bar>?d\<bar> < 2 ^ 12" by (rule power2_less_imp_less) simp
  have big: "of_int (?S (Suc n)) * 2 ^ (2 * e) \<le> (2::real) ^ 128"
  proof -
    have "(of_int (?S (Suc n)) :: real) \<le> of_int (?S (length as))" using mono by (simp only: of_int_le_iff)
    then have "(of_int (?S (Suc n)) :: real) * 2 ^ (2 * e) \<le> of_int (?S (length as)) * 2 ^ (2 * e)"
      by (simp add: mult_right_mono)
    then show ?thesis using assms(4) by linarith
  qed
  have d2big: "(of_int (?d\<^sup>2) :: real) * 2 ^ (2 * e) \<le> 2 ^ 128"
  proof -
    have "?d\<^sup>2 \<le> ?S (Suc n)" using Sn Sn_nonneg by linarith
    then have "(of_int (?d\<^sup>2) :: real) \<le> of_int (?S (Suc n))" by (simp only: of_int_le_iff)
    then have "(of_int (?d\<^sup>2) :: real) * 2 ^ (2 * e) \<le> of_int (?S (Suc n)) * 2 ^ (2 * e)"
      by (simp add: mult_right_mono)
    then show ?thesis using big by linarith
  qed
  have "(\<bar>of_int ?d\<bar> * 2 ^ e)\<^sup>2 = (of_int (?d\<^sup>2) :: real) * 2 ^ (2 * e)"
    by (simp add: power_mult_distrib power_mult power2_eq_square mult.commute)
  also have "\<dots> \<le> (2 ^ 64)\<^sup>2" using d2big by simp
  finally have "\<bar>of_int ?d\<bar> * 2 ^ e \<le> (2::real) ^ 64"
    by (rule power2_le_imp_le) simp
  then have dbig: "\<bar>of_int ?d\<bar> * 2 ^ e \<le> (2::real) ^ 128"
    by (rule order_trans) simp
  have diff: "grid e as ! n - grid e bs ! n = of_int ?d * 2 ^ e"
    using n by (simp add: grid_def algebra_simps)
  have f1: "to_float (of_int ?d * 2 ^ e) = of_int ?d * 2 ^ e"
    by (rule to_float_int) (use dabs dbig in simp_all)
  have sq: "(of_int ?d * 2 ^ e)\<^sup>2 = (of_int (?d\<^sup>2) :: real) * 2 ^ (2 * e)"
    by (simp add: power_mult_distrib power_mult power2_eq_square mult.commute)
  have p128: "(2::real) ^ 128 \<le> 2 ^ 1024" by simp
  have p24: "(2::int) ^ 24 \<le> 2 ^ 53" by simp
  have c1: "\<bar>?d\<^sup>2\<bar> < 2 ^ 53" using d2 p24 by simp
  have c2: "\<bar>of_int (?d\<^sup>2) :: real\<bar> * 2 ^ (2 * e) \<le> 2 ^ 1024"
    using d2big p128 by (simp only: abs_of_nonneg of_int_0_le_iff zero_le_power2 order_trans)
  have f2: "to_double (of_int (?d\<^sup>2) * 2 ^ (2 * e)) = of_int (?d\<^sup>2) * 2 ^ (2 * e)"
    using c1 c2 by (rule to_double_int)
  have sum: "of_int (?S n) * 2 ^ (2 * e) + of_int (?d\<^sup>2) * 2 ^ (2 * e) = (of_int (?S (Suc n)) :: real) * 2 ^ (2 * e)"
    by (simp add: algebra_simps)
  have Snn: "0 \<le> ?S (Suc n)" by (simp add: sum_nonneg)
  have c3: "\<bar>?S (Suc n)\<bar> < 2 ^ 24" using small Snn by (simp only: abs_of_nonneg)
  have c4: "\<bar>?S (Suc n)\<bar> < 2 ^ 53" using c3 p24 by linarith
  have c5: "\<bar>of_int (?S (Suc n)) :: real\<bar> * 2 ^ (2 * e) \<le> 2 ^ 128"
    using big Snn by (simp only: abs_of_nonneg of_int_0_le_iff)
  have c6: "\<bar>of_int (?S (Suc n)) :: real\<bar> * 2 ^ (2 * e) \<le> 2 ^ 1024"
    using c5 p128 by (rule order_trans)
  have f3: "to_double (of_int (?S (Suc n)) * 2 ^ (2 * e)) = of_int (?S (Suc n)) * 2 ^ (2 * e)"
    using c4 c6 by (rule to_double_int)
  have f4: "to_float (of_int (?S (Suc n)) * 2 ^ (2 * e)) = of_int (?S (Suc n)) * 2 ^ (2 * e)"
    using c3 c5 by (rule to_float_int)
  have IH: "squared_distance_loop (grid e as) (grid e bs) n = of_int (?S n) * 2 ^ (2 * e)"
    using Suc by simp
  have "squared_distance_loop (grid e as) (grid e bs) (Suc n)
      = to_float (to_double (squared_distance_loop (grid e as) (grid e bs) n
          + to_double ((to_float (grid e as ! n - grid e bs ! n))\<^sup>2)))"
    by (simp add: squared_distance_loop_def)
  also have "\<dots> = of_int (?S (Suc n)) * 2 ^ (2 * e)"
    unfolding IH diff f1 sq f2 sum f3 f4 ..
  finally show ?case .
qed

lemma squared_distance_loop_grid:
  assumes "length as = length bs"
    and "(\<Sum>i<length as. (as ! i - bs ! i)\<^sup>2) < 2 ^ 24"
    and "of_int (\<Sum>i<length as. (as ! i - bs ! i)\<^sup>2) * 2 ^ (2 * e) \<le> (2::real) ^ 128"
  shows "squared_distance_loop (grid e as) (grid e bs) (length as)
       = of_int (\<Sum>i<length as. (as ! i - bs ! i)\<^sup>2) * 2 ^ (2 * e)"
  using squared_distance_loop_grid_partial[OF assms(1) order_refl assms(2,3)] .

lemma sum_nth_zip:
  "length as = length bs \<Longrightarrow>
   (\<Sum>i<length as. f (as ! i) (bs ! i)) = sum_list (map (\<lambda>(x, y). f x y) (zip as bs))"
  for f :: "int \<Rightarrow> int \<Rightarrow> int"
proof (induction as bs rule: list_induct2)
  case Nil
  then show ?case by simp
next
  case (Cons x xs y ys)
  then show ?case by (simp add: sum.lessThan_Suc_shift del: sum.lessThan_Suc)
qed

lemma length_grid: "length (grid e ns) = length ns"
  by (simp add: grid_def)

lemma squared_distance_loop_grid_eval:
  assumes "n = length as" "length as = length bs"
    and "sum_list (map (\<lambda>(x, y). (x - y)\<^sup>2) (zip as bs)) < 2 ^ 24"
    and "of_int (sum_list (map (\<lambda>(x, y). (x - y)\<^sup>2) (zip as bs))) * 2 ^ (2 * e) \<le> (2::real) ^ 128"
  shows "squared_distance_loop (grid e as) (grid e bs) n
       = of_int (sum_list (map (\<lambda>(x, y). (x - y)\<^sup>2) (zip as bs))) * 2 ^ (2 * e)"
proof -
  have s: "(\<Sum>i<length as. (as ! i - bs ! i)\<^sup>2) = sum_list (map (\<lambda>(x, y). (x - y)\<^sup>2) (zip as bs))"
    using assms(2) by (rule sum_nth_zip)
  show ?thesis
    unfolding assms(1) s[symmetric]
    by (rule squared_distance_loop_grid) (use assms(2,3,4) s in simp_all)
qed

lemmas eval_grid_defs = optics_def expand_cluster_order_def get_neighbors_def squared_distance_def
   length_grid squared_distance_loop_grid_eval float_evals
   set_reachability_distance_def UNDEFINED_def numeric_limits_max_def squared_core_distance_def nth_element_def
    processed_def update_seeds_def Comp_DataPoint_Ptr_f_def

lemma squared_distance_dist2:
  "length (data (heap s a)) = length (data (heap s b)) \<Longrightarrow> squared_distance s a b = Inr (dist2 s a b)"
  by (simp add: squared_distance_def dist2_def Let_def)

lemma dist2_nonneg: "0 \<le> dist2 s a b"
  by (simp add: dist2_def squared_distance_loop_nonneg)

lemma dist2_self: "dist2 s p p = 0"
  by (simp add: dist2_def squared_distance_loop_self)

lemma distances_map:
  "\<forall>q\<in>set N. length (data (heap s q)) = length (data (heap s p))
     \<Longrightarrow> distances s p N = Inr (map (dist2 s p) N)"
  by (induction N) (simp_all add: squared_distance_dist2)

lemma zip_map_self: "zip (map f xs) xs = map (\<lambda>x. (f x, x)) xs"
  by (induction xs) simp_all

lemma sort_key_pairs:
  fixes f :: "'a \<Rightarrow> real"
  shows "map f (map snd (sort_key fst (map (\<lambda>x. (f x, x)) xs))) = sort (map f xs)"
proof -
  define ys where "ys = sort_key fst (map (\<lambda>x. (f x, x)) xs)"
  have s: "set ys = (\<lambda>x. (f x, x)) ` set xs" by (simp add: ys_def)
  have "\<And>y. y \<in> set ys \<Longrightarrow> f (snd y) = fst y" unfolding s by auto
  then have a: "map f (map snd ys) = map fst ys" by (induction ys) simp_all
  have "mset ys = mset (map (\<lambda>x. (f x, x)) xs)" by (simp add: ys_def)
  then have "mset (map fst ys) = mset (map fst (map (\<lambda>x. (f x, x)) xs))"
    by (metis mset_map)
  then have m: "mset (map fst ys) = mset (map f xs)" by (simp add: comp_def)
  have so: "sorted (map fst ys)" by (simp add: ys_def)
  have "sort (map f xs) = map fst ys"
    using m so by (rule properties_for_sort)
  with a show ?thesis by (simp add: ys_def)
qed

lemma nth_element_sorted:
  assumes "\<forall>q\<in>set N. length (data (heap s q)) = length (data (heap s p))"
  shows "\<exists>N'. nth_element s p N = Inr N' \<and> mset N' = mset N
           \<and> map (dist2 s p) N' = sort (map (dist2 s p) N)"
proof -
  let ?N' = "map snd (sort_key fst (map (\<lambda>x. (dist2 s p x, x)) N))"
  have "nth_element s p N = Inr ?N'"
    using assms by (simp add: nth_element_def distances_map zip_map_self)
  moreover have "mset ?N' = mset N"
    by (simp add: multiset.map_comp comp_def)
  moreover have "map (dist2 s p) ?N' = sort (map (dist2 s p) N)"
    by (rule sort_key_pairs)
  ultimately show ?thesis by blast
qed

lemma sorted_count_below:
  fixes xs :: "real list"
  assumes "sorted xs" "k < length xs"
  shows "length (filter (\<lambda>x. x < xs ! k) xs) \<le> k"
proof -
  have "filter (\<lambda>x. x < xs ! k) (drop k xs) = []"
    using assms by (auto simp: filter_empty_conv in_set_conv_nth sorted_iff_nth_mono not_less)
  then have "filter (\<lambda>x. x < xs ! k) xs = filter (\<lambda>x. x < xs ! k) (take k xs)"
    by (metis append_take_drop_id filter_append self_append_conv)
  then show ?thesis
    by (metis length_filter_le length_take min.cobounded2 order_trans)
qed

lemma sorted_count_upto:
  fixes xs :: "real list"
  assumes "sorted xs" "k < length xs"
  shows "k < length (filter (\<lambda>x. x \<le> xs ! k) xs)"
proof -
  have "filter (\<lambda>x. x \<le> xs ! k) (take (Suc k) xs) = take (Suc k) xs"
    using assms by (auto simp: filter_id_conv in_set_conv_nth sorted_iff_nth_mono)
  moreover have "filter (\<lambda>x. x \<le> xs ! k) xs
      = filter (\<lambda>x. x \<le> xs ! k) (take (Suc k) xs) @ filter (\<lambda>x. x \<le> xs ! k) (drop (Suc k) xs)"
    by (metis append_take_drop_id filter_append)
  ultimately show ?thesis using assms by simp
qed

lemma length_filter_sort:
  "length (filter P (sort xs)) = length (filter P xs)" for xs :: "real list"
proof -
  have "mset (filter P (sort xs)) = mset (filter P xs)" by simp
  then show ?thesis by (metis size_mset)
qed

lemma order_statistic_rank:
  assumes "k < length xs"
  shows "order_statistic k xs \<in> set xs
       \<and> length (filter (\<lambda>x. x < order_statistic k xs) xs) \<le> k
       \<and> k < length (filter (\<lambda>x. x \<le> order_statistic k xs) xs)"
proof -
  have k: "k < length (sort xs)" using assms by simp
  have "sort xs ! k \<in> set (sort xs)" using k by (rule nth_mem)
  moreover have "length (filter (\<lambda>x. x < sort xs ! k) (sort xs)) \<le> k"
    using sorted_count_below[OF _ k] by simp
  moreover have "k < length (filter (\<lambda>x. x \<le> sort xs ! k) (sort xs))"
    using sorted_count_upto[OF _ k] by simp
  ultimately show ?thesis
    by (simp add: order_statistic_def length_filter_sort)
qed

lemma order_statistic_0:
  assumes "0 \<in> set xs" "\<forall>x\<in>set xs. 0 \<le> x"
  shows "order_statistic 0 xs = 0"
proof -
  have ne: "0 < length (sort xs)" using assms(1) by (cases xs) auto
  have "sort xs ! 0 \<in> set (sort xs)" using ne by (rule nth_mem)
  then have ge: "0 \<le> sort xs ! 0" using assms(2) by simp
  obtain i where i: "i < length (sort xs)" "sort xs ! i = 0"
    using assms(1) by (metis in_set_conv_nth set_sort)
  have "sort xs ! 0 \<le> sort xs ! i"
    by (rule sorted_nth_mono) (use i in simp_all)
  with ge i show ?thesis by (simp add: order_statistic_def)
qed

text \<open>
  Claim C2. For a point \<open>p\<close>, \<open>min_pts \<ge> 1\<close> and a neighbourhood \<open>N_eps\<close> that contains \<open>p\<close>,
  with finite coordinates and all of the dimension of \<open>p\<close> (so that no assertion fails):
  \<open>squared_core_distance\<close> returns \<open>UNDEFINED\<close> when \<open>|N_eps| \<le> min_pts\<close>, and otherwise the
  order statistic of index \<open>min_pts\<close> of the squared distances from \<open>p\<close> to the points of
  \<open>N_eps\<close>, each as \<open>squared_distance\<close> computes it in floats. Index 0 is the distance 0 of
  \<open>p\<close> to itself. The value returned has at most \<open>min_pts\<close> of these distances strictly
  below it and more than \<open>min_pts\<close> of them up to it. The neighbourhood is left permuted.
\<close>

theorem squared_core_distance_order_statistic:
  assumes "1 \<le> min_pts" and "p \<in> set N_eps"
    and "\<forall>q\<in>set N_eps. length (data (heap s q)) = length (data (heap s p))"
    and "float_coordinates s N_eps"
  shows "\<exists>N'. squared_core_distance s p min_pts N_eps
            = Inr (if length N_eps \<le> min_pts then UNDEFINED
                   else order_statistic min_pts (map (dist2 s p) N_eps), N')
          \<and> mset N' = mset N_eps
          \<and> order_statistic 0 (map (dist2 s p) N_eps) = 0
          \<and> (min_pts < length N_eps \<longrightarrow>
               length (filter (\<lambda>q. dist2 s p q < order_statistic min_pts (map (dist2 s p) N_eps)) N_eps) \<le> min_pts
             \<and> min_pts < length (filter (\<lambda>q. dist2 s p q \<le> order_statistic min_pts (map (dist2 s p) N_eps)) N_eps))"
proof -
  let ?ds = "map (dist2 s p) N_eps"
  have zero: "order_statistic 0 ?ds = 0"
    by (rule order_statistic_0) (use assms(2) in \<open>auto simp: dist2_nonneg dist2_self image_iff intro: bexI[of _ p]\<close>)
  have rank: "min_pts < length N_eps \<Longrightarrow>
       length (filter (\<lambda>q. dist2 s p q < order_statistic min_pts ?ds) N_eps) \<le> min_pts
     \<and> min_pts < length (filter (\<lambda>q. dist2 s p q \<le> order_statistic min_pts ?ds) N_eps)"
    using order_statistic_rank[of min_pts ?ds]
    by (simp add: filter_map comp_def)
  show ?thesis
  proof (cases "length N_eps \<le> min_pts")
    case True
    then show ?thesis using assms(1) zero by (simp add: squared_core_distance_def)
  next
    case False
    obtain N' where N': "nth_element s p N_eps = Inr N'" "mset N' = mset N_eps"
      "map (dist2 s p) N' = sort ?ds"
      using nth_element_sorted[OF assms(3)] by blast
    have len: "min_pts < length N'" using False N'(2) by (metis not_le size_mset)
    have mem: "N' ! min_pts \<in> set N_eps" using len N'(2) by (metis nth_mem set_mset_mset)
    have "dist2 s p (N' ! min_pts) = order_statistic min_pts ?ds"
      using N'(3) len by (metis nth_map order_statistic_def)
    moreover have "squared_distance s p (N' ! min_pts) = Inr (dist2 s p (N' ! min_pts))"
      by (rule squared_distance_dist2) (use mem assms(3) in simp)
    ultimately show ?thesis
      using False assms(1) N' zero rank by (simp add: squared_core_distance_def)
  qed
qed

theorem squared_core_distance_order_statistic_witness:
  "(1::nat) \<le> 1 \<and> (0::nat) \<in> set [0, 1]
   \<and> list_all (\<lambda>q. length (data (heap two_points q)) = length (data (heap two_points 0))) [0, 1]
   \<and> float_coordinates two_points [0, 1]
   \<and> map (dist2 two_points 0) [0, 1] = [0, 1]
   \<and> (\<exists>N'. squared_core_distance two_points 0 1 [0, 1]
              = Inr (order_statistic 1 (map (dist2 two_points 0) [0, 1]), N'))"
proof -
  have d: "\<forall>q\<in>set [0, 1]. length (data (heap two_points q)) = length (data (heap two_points 0))"
    by (simp add: two_points_def fresh_point_def)
  have f: "float_coordinates two_points [0, 1]"
    by (simp add: float_coordinates_def finite_float_def float_evals two_points_def fresh_point_def)
  have v: "map (dist2 two_points 0) [0, 1] = [0, 1]"
    by (simp add: dist2_def squared_distance_loop_def float_evals two_points_def fresh_point_def)
  show ?thesis
    using squared_core_distance_order_statistic[of 1 0 "[0, 1]" two_points, OF _ _ d f] d f v
    by auto
qed

section \<open>Invalid parameters\<close>

text \<open>
  Claim C9. A call of \<open>optics\<close> (either version) with \<open>eps < 0\<close> or \<open>min_pts = 0\<close> fails
  the assertion at its entry: the run aborts with the store exactly as it was passed in,
  and no ordering is returned. The two assertions are what the specification calls
  InvalidParameter.
\<close>

theorem optics_invalid_parameter:
  assumes "eps < 0 \<or> min_pts = 0"
  shows "optics s db eps min_pts = Some (Inl (if eps < 0 then eps_negative else min_pts_zero, s))
       \<and> optics_cb s db eps min_pts cb u = Some (Inl (if eps < 0 then eps_negative else min_pts_zero, s))"
  using assms by (auto simp: optics_def optics_cb_def)

theorem optics_invalid_parameter_witness:
  "((-1::real) < 0 \<or> (1::nat) = 0)
   \<and> optics two_points [0, 1] (-1) 1 = Some (Inl (eps_negative, two_points))
   \<and> optics_cb two_points [0, 1] (-1) 1 record_handle [] = Some (Inl (eps_negative, two_points))"
  using optics_invalid_parameter[of "-1" 1 two_points "[0,1]" record_handle "[]"] by simp

section \<open>The progress callback\<close>

text \<open>
  Claim C1 says that the callback is given the point just emitted. On the two points of
  scenario 2 (\<open>eps = 2\<close>, \<open>min_pts = 1\<close>) the ordering is \<open>[0, 1]\<close>, but the callback is
  called with \<open>0\<close> twice: inside the seed loop it is given the outer \<open>p\<close>, not \<open>q\<close>.
\<close>

theorem callback_receives_outer_point:
  "case optics_cb two_points [0, 1] 2 1 record_handle [] of
     Some (Inr (ret, s', calls)) \<Rightarrow> ret = [0, 1] \<and> calls = [0, 0]
   | _ \<Rightarrow> False"
  by (simp add: eval_defs two_points_def fresh_point_def record_handle_def seeds_loop_cb.simps)

section \<open>Cluster extraction\<close>

lemma cluster_i_loop_filter:
  assumes "\<forall>j\<in>set js. j < length result" "ret \<noteq> []"
  shows "cluster_i_loop s result thr js ret cluster_i
       = Inr (ret[0 := ret ! 0 @ filter (\<lambda>p. reachability_distance (heap s p) > thr) (map ((!) result) js)],
              cluster_i @ filter (\<lambda>p. \<not> reachability_distance (heap s p) > thr) (map ((!) result) js))"
  using assms
proof (induction js arbitrary: ret cluster_i)
  case Nil
  then show ?case by simp
next
  case (Cons j js)
  then show ?case by (simp add: Let_def)
qed

lemma map_nth_range:
  "u \<le> length xs \<Longrightarrow> map ((!) xs) [l..<u] = drop l (take u xs)"
  by (rule nth_equalityI) simp_all

lemma code_lower_idx:
  "(if i = 0 then 0 else cluster_borders ! (i - 1)) = lower_idx cluster_borders i"
  by (cases i) (simp_all add: lower_idx_def)

lemma code_upper_idx:
  "i \<le> length cluster_borders \<Longrightarrow>
   (if i = length cluster_borders then length result else cluster_borders ! i)
     = upper_idx result cluster_borders i"
  by (simp add: upper_idx_def nth_append)

lemma upper_idx_le:
  "borders_in_range result cluster_borders \<Longrightarrow> i \<le> length cluster_borders
     \<Longrightarrow> upper_idx result cluster_borders i \<le> length result"
  by (auto simp: borders_in_range_def upper_idx_def nth_append list_all_iff)

lemma extract_clusters_loop_buckets:
  assumes "borders_in_range result cluster_borders" "\<forall>i\<in>set is. i \<le> length cluster_borders"
    and "ret \<noteq> []"
  shows "extract_clusters_loop s result cluster_borders thr is ret
       = Inr (ret[0 := ret ! 0 @ concat (map (\<lambda>i. filter (\<lambda>p. reachability_distance (heap s p) > thr)
                                               (segment result cluster_borders i)) is)]
              @ map (\<lambda>i. filter (\<lambda>p. \<not> reachability_distance (heap s p) > thr)
                           (segment result cluster_borders i)) is)"
  using assms(2,3)
proof (induction "is" arbitrary: ret)
  case Nil
  then show ?case by simp
next
  case (Cons i "is")
  let ?l = "lower_idx cluster_borders i" and ?u = "upper_idx result cluster_borders i"
  have i: "i \<le> length cluster_borders" using Cons.prems(1) by simp
  have u: "?u \<le> length result" using assms(1) i by (rule upper_idx_le)
  have seg: "map ((!) result) [?l..<?u] = segment result cluster_borders i"
    using u by (simp add: map_nth_range segment_def)
  have inner: "cluster_i_loop s result thr [?l..<?u] ret []
       = Inr (ret[0 := ret ! 0 @ filter (\<lambda>p. reachability_distance (heap s p) > thr) (segment result cluster_borders i)],
              filter (\<lambda>p. \<not> reachability_distance (heap s p) > thr) (segment result cluster_borders i))"
    using cluster_i_loop_filter[of "[?l..<?u]" result ret s thr "[]"] u Cons.prems(2)
    by (simp add: seg)
  have ne: "0 < length ret" using Cons.prems(2) by simp
  show ?case
    using Cons.IH[of "ret[0 := ret ! 0 @ filter (\<lambda>p. reachability_distance (heap s p) > thr) (segment result cluster_borders i)]
                       @ [filter (\<lambda>p. \<not> reachability_distance (heap s p) > thr) (segment result cluster_borders i)]"]
      Cons.prems(1) ne
    by (simp add: code_lower_idx code_upper_idx[OF i] inner nth_append list_update_append1)
qed

lemma extract_clusters_buckets:
  assumes "borders_in_range result cluster_borders"
  shows "extract_clusters s result cluster_borders t
       = Inr (concat (map (\<lambda>i. filter (is_outlier s t) (segment result cluster_borders i))
                          [0..<Suc (length cluster_borders)])
              # map (\<lambda>i. filter (\<lambda>p. \<not> is_outlier s t p) (segment result cluster_borders i))
                    [0..<Suc (length cluster_borders)])"
proof -
  have "\<forall>i\<in>set [0..<Suc (length cluster_borders)]. i \<le> length cluster_borders" by auto
  from extract_clusters_loop_buckets[OF assms this, of "[[]]" s "effective_threshold t"]
  show ?thesis
    unfolding extract_clusters_def Let_def is_outlier_def effective_threshold_def by simp
qed

lemma take_append_segment:
  "a \<le> b \<Longrightarrow> take a xs @ drop a (take b xs) = take b xs"
  by (metis append_take_drop_id min.absorb1 take_take)

lemma concat_segments_take:
  assumes "sorted cluster_borders" "k \<le> length cluster_borders"
  shows "concat (map (segment result cluster_borders) [0..<k]) = take (lower_idx cluster_borders k) result"
  using assms(2)
proof (induction k)
  case 0
  then show ?case by (simp add: lower_idx_def)
next
  case (Suc k)
  have k: "k < length cluster_borders" using Suc.prems by simp
  have "sorted (0 # cluster_borders)" using assms(1) by simp
  then have "(0 # cluster_borders) ! k \<le> (0 # cluster_borders) ! Suc k"
    by (rule sorted_nth_mono) (use k in simp_all)
  then have le: "lower_idx cluster_borders k \<le> cluster_borders ! k"
    by (simp add: lower_idx_def)
  have up: "upper_idx result cluster_borders k = cluster_borders ! k"
    using k by (simp add: upper_idx_def nth_append)
  show ?case
    using Suc.IH k le
    by (simp add: segment_def up take_append_segment lower_idx_def)
qed

lemma concat_segments:
  assumes "sorted cluster_borders"
  shows "concat (map (segment result cluster_borders) [0..<Suc (length cluster_borders)]) = result"
proof -
  have "upper_idx result cluster_borders (length cluster_borders) = length result"
    by (simp add: upper_idx_def)
  then have "segment result cluster_borders (length cluster_borders)
      = drop (lower_idx cluster_borders (length cluster_borders)) result"
    by (simp add: segment_def)
  then show ?thesis
    using concat_segments_take[OF assms order_refl, of result] by simp
qed

lemma concat_map_filter: "concat (map (\<lambda>i. filter P (f i)) is) = filter P (concat (map f is))"
  by (induction "is") simp_all

text \<open>
  Claim C6. For an ascending border list with every index in range, and any threshold,
  \<open>extract_clusters\<close> returns \<open>|B| + 2\<close> buckets: bucket 0 holds the outliers of the whole
  ordering, bucket \<open>i + 1\<close> the other points of segment \<open>i\<close> (possibly none). The segments
  concatenate to the ordering, so the buckets together hold every position of the ordering
  exactly once; for an ordering without repetition they are pairwise disjoint.
\<close>

theorem extract_clusters_partition:
  assumes "sorted cluster_borders" and "borders_in_range result cluster_borders"
  shows "\<exists>buckets. extract_clusters s result cluster_borders t = Inr buckets
         \<and> length buckets = length cluster_borders + 2
         \<and> buckets ! 0 = filter (is_outlier s t) result
         \<and> (\<forall>i\<le>length cluster_borders.
               buckets ! Suc i = filter (\<lambda>p. \<not> is_outlier s t p) (segment result cluster_borders i))
         \<and> concat (map (segment result cluster_borders) [0..<Suc (length cluster_borders)]) = result
         \<and> mset (concat buckets) = mset result
         \<and> (distinct result \<longrightarrow> distinct (concat buckets))"
proof -
  let ?m = "length cluster_borders"
  let ?out = "concat (map (\<lambda>i. filter (is_outlier s t) (segment result cluster_borders i)) [0..<Suc ?m])"
  let ?cl = "map (\<lambda>i. filter (\<lambda>p. \<not> is_outlier s t p) (segment result cluster_borders i)) [0..<Suc ?m]"
  have e: "extract_clusters s result cluster_borders t = Inr (?out # ?cl)"
    using assms(2) by (rule extract_clusters_buckets)
  have segs: "concat (map (segment result cluster_borders) [0..<Suc ?m]) = result"
    using assms(1) by (rule concat_segments)
  have out: "?out = filter (is_outlier s t) result"
    unfolding concat_map_filter segs ..
  have cl: "concat ?cl = filter (\<lambda>p. \<not> is_outlier s t p) result"
    unfolding concat_map_filter segs ..
  have nth: "\<forall>i\<le>?m. (?out # ?cl) ! Suc i = filter (\<lambda>p. \<not> is_outlier s t p) (segment result cluster_borders i)"
  proof (intro allI impI)
    fix i assume "i \<le> ?m"
    then have "i < length [0..<Suc ?m]" by simp
    then have "?cl ! i = filter (\<lambda>p. \<not> is_outlier s t p) (segment result cluster_borders ([0..<Suc ?m] ! i))"
      by (rule nth_map)
    moreover have "[0..<Suc ?m] ! i = i" using \<open>i \<le> ?m\<close> by (metis add_0 le_imp_less_Suc nth_upt)
    ultimately show "(?out # ?cl) ! Suc i = filter (\<lambda>p. \<not> is_outlier s t p) (segment result cluster_borders i)"
      by simp
  qed
  have c: "concat (?out # ?cl) = filter (is_outlier s t) result @ filter (\<lambda>p. \<not> is_outlier s t p) result"
    using out cl by simp
  have m: "mset (concat (?out # ?cl)) = mset result"
    unfolding c by simp
  have d: "distinct result \<longrightarrow> distinct (concat (?out # ?cl))"
    unfolding c by auto
  have l: "length (?out # ?cl) = ?m + 2" by simp
  have z: "(?out # ?cl) ! 0 = filter (is_outlier s t) result" using out by simp
  show ?thesis
    using e l z nth segs m d by blast
qed

theorem extract_clusters_partition_witness:
  "sorted [1::nat] \<and> borders_in_range [0, 1] [1]
   \<and> extract_clusters two_points [0, 1] [1] 0 = Inr [[], [0], [1]]
   \<and> (\<exists>buckets. extract_clusters two_points [0, 1] [1] 0 = Inr buckets
          \<and> length buckets = length [1::nat] + 2
          \<and> mset (concat buckets) = mset [0, 1])"
proof -
  have h: "sorted [1::nat]" "borders_in_range [0, 1] [1]"
    by (simp_all add: borders_in_range_def)
  have e: "extract_clusters two_points [0, 1] [1] 0 = Inr [[], [0], [1]]"
    by (simp add: extract_clusters_def two_points_def fresh_point_def UNDEFINED_def)
  show ?thesis
    using extract_clusters_partition[OF h, of two_points 0] h e by auto
qed

text \<open>
  Claim C10. With a threshold \<open>0 < t < UNDEFINED\<close> (and borders as \<open>extract_clusters\<close>
  requires them), a point of the ordering whose reachability is \<open>UNDEFINED\<close> is in the
  outlier bucket and in no other bucket: \<open>UNDEFINED\<close> is the largest float, above \<open>t\<close>.
\<close>

theorem undefined_points_are_outliers:
  assumes "0 < t" and "t < UNDEFINED"
    and "sorted cluster_borders" and "borders_in_range result cluster_borders"
    and "p \<in> set result" and "reachability_distance (heap s p) = UNDEFINED"
  shows "\<exists>buckets. extract_clusters s result cluster_borders t = Inr buckets
         \<and> p \<in> set (buckets ! 0)
         \<and> (\<forall>k. 1 \<le> k \<and> k < length buckets \<longrightarrow> p \<notin> set (buckets ! k))"
proof -
  let ?m = "length cluster_borders"
  let ?out = "concat (map (\<lambda>i. filter (is_outlier s t) (segment result cluster_borders i)) [0..<Suc ?m])"
  let ?cl = "map (\<lambda>i. filter (\<lambda>p. \<not> is_outlier s t p) (segment result cluster_borders i)) [0..<Suc ?m]"
  have e: "extract_clusters s result cluster_borders t = Inr (?out # ?cl)"
    using assms(4) by (rule extract_clusters_buckets)
  have o: "is_outlier s t p"
    using assms(1,2,6) by (simp add: is_outlier_def effective_threshold_def)
  have "?out = filter (is_outlier s t) result"
    unfolding concat_map_filter concat_segments[OF assms(3)] ..
  then have a: "p \<in> set ((?out # ?cl) ! 0)" using o assms(5) by simp
  have b: "\<forall>k. 1 \<le> k \<and> k < length (?out # ?cl) \<longrightarrow> p \<notin> set ((?out # ?cl) ! k)"
  proof (intro allI impI)
    fix k assume k: "1 \<le> k \<and> k < length (?out # ?cl)"
    then obtain i where i: "k = Suc i" "i < length ?cl" by (cases k) auto
    then have "?cl ! i \<in> set ?cl" by (metis nth_mem)
    then obtain j where "?cl ! i = filter (\<lambda>p. \<not> is_outlier s t p) (segment result cluster_borders j)"
      by auto
    then show "p \<notin> set ((?out # ?cl) ! k)" using o i by simp
  qed
  show ?thesis using e a b by blast
qed

theorem undefined_points_are_outliers_witness:
  "(0::real) < 1 \<and> 1 < UNDEFINED \<and> sorted [1::nat] \<and> borders_in_range [0, 1] [1]
   \<and> (1::nat) \<in> set [0, 1] \<and> reachability_distance (heap two_points 1) = UNDEFINED
   \<and> extract_clusters two_points [0, 1] [1] 1 = Inr [[0, 1], [], []]
   \<and> (\<exists>buckets. extract_clusters two_points [0, 1] [1] 1 = Inr buckets \<and> 1 \<in> set (buckets ! 0))"
proof -
  have h: "(0::real) < 1" "1 < UNDEFINED" "sorted [1::nat]" "borders_in_range [0, 1] [1]"
      "(1::nat) \<in> set [0, 1]" "reachability_distance (heap two_points 1) = UNDEFINED"
    by (simp_all add: borders_in_range_def two_points_def fresh_point_def UNDEFINED_def numeric_limits_max_def)
  have e: "extract_clusters two_points [0, 1] [1] 1 = Inr [[0, 1], [], []]"
    by (simp add: extract_clusters_def two_points_def fresh_point_def UNDEFINED_def numeric_limits_max_def)
  show ?thesis
    using undefined_points_are_outliers[OF h] h e by auto
qed

section \<open>Peaks of the reachability plot\<close>

lemma peaks_loop_take:
  "i \<le> length extrema \<Longrightarrow>
   peaks_loop extrema i n k ret = ret @ map MaxIndex (take (k - n) (rev (take i extrema)))"
proof (induction i arbitrary: n ret)
  case 0
  then show ?case by simp
next
  case (Suc i)
  have t: "take (Suc i) extrema = take i extrema @ [extrema ! i]"
    using Suc.prems by (simp add: take_Suc_conv_app_nth)
  show ?case
  proof (cases "n < k")
    case True
    then obtain d where d: "k - n = Suc d" "k - Suc n = d"
      by (metis Suc_diff_Suc)
    show ?thesis using True Suc.IH[of "Suc n"] Suc.prems by (simp add: t d)
  next
    case False
    then show ?thesis by simp
  qed
qed

lemma find_k_histogram_peaks_take:
  "find_k_histogram_peaks G r k = map MaxIndex (take (k - 1) (rev (G r 0)))"
  by (simp add: find_k_histogram_peaks_def Let_def peaks_loop_take)

text \<open>
  Claim C8. For \<open>k \<ge> 1\<close>, \<open>find_k_histogram_peaks\<close> returns the maximum indices of a
  selection \<open>sel\<close> of the paired extrema with \<open>|sel| = min (k - 1) (number of pairs)\<close>: at
  most \<open>k - 1\<close> indices, and all pairs when there are fewer. The library returns the pairs
  in ascending persistence (the comment of \<open>find_histogram_peaks\<close> says so); then the
  selection is in descending persistence and no pair left out is more persistent than a
  selected one.
\<close>

theorem find_k_histogram_peaks_most_persistent:
  assumes "1 \<le> k" and "sorted (map Persistence (G r 0))"
  shows "\<exists>sel rest.
           find_k_histogram_peaks G r k = map MaxIndex sel
         \<and> mset sel + mset rest = mset (G r 0)
         \<and> length sel = min (k - 1) (length (G r 0))
         \<and> length (find_k_histogram_peaks G r k) \<le> k - 1
         \<and> sorted (rev (map Persistence sel))
         \<and> (\<forall>a\<in>set sel. \<forall>b\<in>set rest. Persistence b \<le> Persistence a)"
proof -
  let ?ex = "G r 0"
  let ?sel = "take (k - 1) (rev ?ex)"
  let ?rest = "drop (k - 1) (rev ?ex)"
  have split: "?sel @ ?rest = rev ?ex" by simp
  have desc: "sorted (rev (map Persistence (rev ?ex)))"
    using assms(2) by (simp add: rev_map)
  have "mset ?sel + mset ?rest = mset (rev ?ex)"
    by (metis split mset_append)
  then have m: "mset ?sel + mset ?rest = mset ?ex" by simp
  have "rev (map Persistence (rev ?ex)) = rev (map Persistence ?rest) @ rev (map Persistence ?sel)"
    by (metis split map_append rev_append)
  with desc have s: "sorted (rev (map Persistence ?rest) @ rev (map Persistence ?sel))" by simp
  then have s1: "sorted (rev (map Persistence ?sel))"
    by (simp add: sorted_append)
  have s2: "\<forall>a\<in>set ?sel. \<forall>b\<in>set ?rest. Persistence b \<le> Persistence a"
    using s by (auto simp: sorted_append)
  have l: "length ?sel = min (k - 1) (length ?ex)" by simp
  have "find_k_histogram_peaks G r k = map MaxIndex ?sel"
    by (rule find_k_histogram_peaks_take)
  with m l s1 s2 show ?thesis
    by (intro exI[of _ ?sel] exI[of _ ?rest]) simp
qed

theorem find_k_histogram_peaks_most_persistent_witness:
  "(1::nat) \<le> 3 \<and> sorted (map Persistence (three_extrema [] 0))
   \<and> find_k_histogram_peaks three_extrema [] 3 = [3, 5]
   \<and> (\<exists>sel rest. find_k_histogram_peaks three_extrema [] 3 = map MaxIndex sel
         \<and> mset sel + mset rest = mset (three_extrema [] 0)
         \<and> length sel = 2)"
proof -
  have h: "sorted (map Persistence (three_extrema [] 0))"
    by (simp add: three_extrema_def)
  have e: "find_k_histogram_peaks three_extrema [] 3 = [3, 5]"
    by (simp add: find_k_histogram_peaks_def three_extrema_def numeral_3_eq_3)
  obtain sel rest where "find_k_histogram_peaks three_extrema [] 3 = map MaxIndex sel"
      "mset sel + mset rest = mset (three_extrema [] 0)"
      "length sel = min (3 - 1) (length (three_extrema [] 0))"
    using find_k_histogram_peaks_most_persistent[of 3 three_extrema "[]", OF _ h] by auto
  moreover have "length (three_extrema [] 0) = 3" by (simp add: three_extrema_def)
  ultimately show ?thesis using h e by auto
qed

section \<open>The seed set and the store\<close>

subsection \<open>The functor is a strict linear order\<close>

lemma Comp_key_less:
  "length (data (heap s a)) = length (data (heap s b))
     \<Longrightarrow> Comp_DataPoint_Ptr_f s a b = Inr (key_less s a b)"
  by (auto simp: Comp_DataPoint_Ptr_f_def key_less_def)

lemma key_less_irrefl: "\<not> key_less s a a"
  by (simp add: key_less_def)

lemma key_less_trans: "key_less s a b \<Longrightarrow> key_less s b c \<Longrightarrow> key_less s a c"
  by (auto simp: key_less_def)

lemma key_less_total: "a \<noteq> b \<Longrightarrow> key_less s a b \<or> key_less s b a"
  by (auto simp: key_less_def)

lemma sorted_wrt_key_less_distinct: "sorted_wrt (key_less s) xs \<Longrightarrow> distinct xs"
  by (induction xs) (auto simp: key_less_irrefl)

lemma sorted_wrt_cong_on:
  "(\<And>a b. a \<in> set xs \<Longrightarrow> b \<in> set xs \<Longrightarrow> R a b = R' a b) \<Longrightarrow> sorted_wrt R xs = sorted_wrt R' xs"
  by (induction xs) auto

subsection \<open>The seed set\<close>

lemma set_insert_sorted:
  assumes "\<forall>y\<in>set ys. length (data (heap s y)) = length (data (heap s x))"
    and "sorted_wrt (key_less s) ys"
  shows "\<exists>zs. set_insert s x ys = Inr zs \<and> set zs = insert x (set ys) \<and> sorted_wrt (key_less s) zs"
  using assms
proof (induction ys)
  case Nil
  then show ?case by simp
next
  case (Cons y ys)
  have c1: "Comp_DataPoint_Ptr_f s y x = Inr (key_less s y x)"
    and c2: "Comp_DataPoint_Ptr_f s x y = Inr (key_less s x y)"
    using Cons.prems(1) by (simp_all add: Comp_key_less)
  show ?case
  proof (cases "key_less s y x")
    case True
    obtain zs where zs: "set_insert s x ys = Inr zs" "set zs = insert x (set ys)"
        "sorted_wrt (key_less s) zs"
      using Cons.IH Cons.prems by auto
    have "sorted_wrt (key_less s) (y # zs)"
      using zs(2,3) True Cons.prems(2) by auto
    then show ?thesis using True zs c1 by auto
  next
    case False
    show ?thesis
    proof (cases "key_less s x y")
      case True
      have "\<forall>z\<in>set ys. key_less s x z"
        using True Cons.prems(2) by (auto intro: key_less_trans)
      then show ?thesis using True False c1 c2 Cons.prems(2) by auto
    next
      case xy: False
      have "x = y" using False xy key_less_total by blast
      then show ?thesis using False xy c1 c2 Cons.prems(2) by auto
    qed
  qed
qed

lemma set_erase_sorted:
  assumes "\<forall>y\<in>set ys. length (data (heap s y)) = length (data (heap s x))"
    and "sorted_wrt (key_less s) ys"
  shows "\<exists>zs. set_erase s x ys = Inr zs \<and> set zs = set ys - {x} \<and> sorted_wrt (key_less s) zs"
  using assms
proof (induction ys)
  case Nil
  then show ?case by simp
next
  case (Cons y ys)
  have c1: "Comp_DataPoint_Ptr_f s y x = Inr (key_less s y x)"
    and c2: "Comp_DataPoint_Ptr_f s x y = Inr (key_less s x y)"
    using Cons.prems(1) by (simp_all add: Comp_key_less)
  show ?case
  proof (cases "key_less s y x")
    case True
    obtain zs where zs: "set_erase s x ys = Inr zs" "set zs = set ys - {x}"
        "sorted_wrt (key_less s) zs"
      using Cons.IH Cons.prems by auto
    have ne: "y \<noteq> x" using True key_less_irrefl by blast
    have "sorted_wrt (key_less s) (y # zs)"
      using zs(2,3) Cons.prems(2) by auto
    moreover have "set (y # zs) = set (y # ys) - {x}" using zs(2) ne by auto
    ultimately show ?thesis using True zs(1) c1 by auto
  next
    case False
    show ?thesis
    proof (cases "key_less s x y")
      case True
      have "\<forall>z\<in>set ys. key_less s x z"
        using True Cons.prems(2) by (auto intro: key_less_trans)
      then have "x \<notin> set (y # ys)" using True key_less_irrefl by auto
      then have "set (y # ys) - {x} = set (y # ys)" by blast
      then show ?thesis using True False c1 c2 Cons.prems(2) by auto
    next
      case xy: False
      have e: "x = y" using False xy key_less_total by blast
      have "y \<notin> set ys" using Cons.prems(2) key_less_irrefl by auto
      then have "set (y # ys) - {x} = set ys" using e by auto
      then show ?thesis using False xy c1 c2 Cons.prems(2) by auto
    qed
  qed
qed

subsection \<open>Neighbourhoods\<close>

lemma get_neighbors_loop_filter:
  "\<forall>q\<in>set qs. length (data (heap s p)) = length (data (heap s q)) \<Longrightarrow>
   get_neighbors_loop s p e qs ret = Inr (ret @ filter (\<lambda>q. dist2 s p q \<le> e) qs)"
  by (induction qs arbitrary: ret) (simp_all add: squared_distance_dist2)

lemma get_neighbors_filter:
  assumes "same_dim s db" "p \<in> set db" "0 \<le> eps"
  shows "get_neighbors s p eps db = Inr (filter (\<lambda>q. dist2 s p q \<le> to_float (eps * eps)) db)"
proof -
  have "\<forall>q\<in>set db. length (data (heap s p)) = length (data (heap s q))"
    using assms(1,2) unfolding same_dim_def by blast
  then have "get_neighbors_loop s p (to_float (eps * eps)) db []
      = Inr ([] @ filter (\<lambda>q. dist2 s p q \<le> to_float (eps * eps)) db)"
    by (rule get_neighbors_loop_filter)
  then show ?thesis using assms(3) by (simp add: get_neighbors_def)
qed

lemma squared_core_distance_cases:
  assumes "0 < min_pts" "\<forall>q\<in>set N. length (data (heap s q)) = length (data (heap s p))"
  shows "\<exists>cd N'. squared_core_distance s p min_pts N = Inr (cd, N') \<and> set N' = set N
           \<and> (cd = UNDEFINED \<or> (\<exists>q\<in>set N. cd = dist2 s p q))"
proof (cases "min_pts < length N")
  case False
  then show ?thesis using assms(1) by (simp add: squared_core_distance_def)
next
  case True
  obtain N' where N': "nth_element s p N = Inr N'" "mset N' = mset N"
    using nth_element_sorted[OF assms(2)] by blast
  have s: "set N' = set N" using N'(2) by (rule mset_eq_setD)
  have "min_pts < length N'" using True N'(2) by (metis size_mset)
  then have mem: "N' ! min_pts \<in> set N" using s by (metis nth_mem)
  then have "length (data (heap s p)) = length (data (heap s (N' ! min_pts)))"
    using assms(2) by metis
  then have "squared_distance s p (N' ! min_pts) = Inr (dist2 s p (N' ! min_pts))"
    by (rule squared_distance_dist2)
  then show ?thesis using True assms(1) N'(1) s mem
    by (auto simp: squared_core_distance_def)
qed

subsection \<open>Stores with the same coordinates\<close>

lemma dist2_same_data:
  "\<forall>h. data (heap s' h) = data (heap s h) \<Longrightarrow> dist2 s' a b = dist2 s a b"
  by (simp add: dist2_def)

lemma same_dim_same_data:
  "\<forall>h. data (heap s' h) = data (heap s h) \<Longrightarrow> same_dim s' db = same_dim s db"
  by (simp add: same_dim_def)

lemma dist_below_same_data:
  "\<forall>h. data (heap s' h) = data (heap s h) \<Longrightarrow> dist_below s' db = dist_below s db"
  using dist2_same_data[of s' s] by (simp add: dist_below_def)

lemma step_data: "step db s A s' B \<Longrightarrow> \<forall>h. data (heap s' h) = data (heap s h)"
  by (simp add: step_def)

lemma step_processed: "step db s A s' B \<Longrightarrow> is_processed (heap s h) \<Longrightarrow> heap s' h = heap s h"
  by (simp add: step_def)

lemma replay_append:
  "replay r (ws1 @ ws2) = (case replay r ws1 of None \<Rightarrow> None | Some r' \<Rightarrow> replay r' ws2)"
proof (induction ws1 arbitrary: r)
  case Nil
  then show ?case by simp
next
  case (Cons w ws1)
  obtain p was_processed old new where w: "w = (p, was_processed, old, new)"
    by (cases w)
  show ?case by (simp add: w Cons.IH)
qed

lemma step_refl: "step db s A s A"
  unfolding step_def by (intro conjI exI[of _ "[]"]) simp_all

lemma step_trans:
  assumes "step db s A s1 B" "step db s1 B s2 C"
  shows "step db s A s2 C"
proof -
  obtain ws1 where ws1: "rlog s1 = rlog s @ ws1"
      "\<forall>w\<in>set ws1. \<not> is_processed (heap s (fst w)) \<and> \<not> fst (snd w)"
      "tidy s db A \<longrightarrow> (\<forall>w\<in>set ws1. monotone_write w)"
      "replay (\<lambda>h. reachability_distance (heap s h)) ws1 = Some (\<lambda>h. reachability_distance (heap s1 h))"
    using assms(1) unfolding step_def by blast
  obtain ws2 where ws2: "rlog s2 = rlog s1 @ ws2"
      "\<forall>w\<in>set ws2. \<not> is_processed (heap s1 (fst w)) \<and> \<not> fst (snd w)"
      "tidy s1 db B \<longrightarrow> (\<forall>w\<in>set ws2. monotone_write w)"
      "replay (\<lambda>h. reachability_distance (heap s1 h)) ws2 = Some (\<lambda>h. reachability_distance (heap s2 h))"
    using assms(2) unfolding step_def by blast
  have rp: "replay (\<lambda>h. reachability_distance (heap s h)) (ws1 @ ws2)
      = Some (\<lambda>h. reachability_distance (heap s2 h))"
    using ws1(4) ws2(4) by (simp add: replay_append)
  have t1: "tidy s db A \<longrightarrow> tidy s1 db B" and t2: "tidy s1 db B \<longrightarrow> tidy s2 db C"
    using assms unfolding step_def by blast+
  have p: "\<And>h. is_processed (heap s h) \<Longrightarrow> heap s1 h = heap s h"
    using assms(1) by (rule step_processed)
  have a: "\<forall>h. data (heap s2 h) = data (heap s h)"
    using step_data[OF assms(1)] step_data[OF assms(2)] by simp
  have b: "\<forall>h. is_processed (heap s h) \<longrightarrow> heap s2 h = heap s h"
    using p step_processed[OF assms(2)] by metis
  have c: "rlog s2 = rlog s @ (ws1 @ ws2)" using ws1(1) ws2(1) by simp
  have d: "\<forall>w\<in>set (ws1 @ ws2). \<not> is_processed (heap s (fst w)) \<and> \<not> fst (snd w)"
    using ws1(2) ws2(2) p by (metis Un_iff set_append)
  have e: "tidy s db A \<longrightarrow> (\<forall>w\<in>set (ws1 @ ws2). monotone_write w)"
    using ws1(3) ws2(3) t1 by auto
  have f: "tidy s db A \<longrightarrow> tidy s2 db C" using t1 t2 by blast
  show ?thesis unfolding step_def using a b c rp d e f by blast
qed

lemma step_mark_processed:
  "step db s (q # seeds) (processed s q True) seeds"
proof -
  let ?s' = "processed s q True"
  have a: "\<forall>h. data (heap ?s' h) = data (heap s h)" by (simp add: processed_def)
  have b: "\<forall>h. is_processed (heap s h) \<longrightarrow> heap ?s' h = heap s h" by (simp add: processed_def)
  have c: "rlog ?s' = rlog s @ []" by (simp add: processed_def)
  have r: "replay (\<lambda>h. reachability_distance (heap s h)) []
      = Some (\<lambda>h. reachability_distance (heap ?s' h))"
    by (auto simp: processed_def)
  have e: "\<forall>w\<in>set []. \<not> is_processed (heap s (fst w)) \<and> \<not> fst (snd w)"
    and e': "tidy s db (q # seeds) \<longrightarrow> (\<forall>w\<in>set []. monotone_write w)" by simp_all
  have d: "tidy s db (q # seeds) \<longrightarrow> tidy ?s' db seeds"
    by (auto simp: tidy_def processed_def)
  show ?thesis unfolding step_def using a b c r e e' d by blast
qed

lemma step_write:
  assumes "\<not> is_processed (heap s ob)" "ob \<in> set db" "0 \<le> v" "v < UNDEFINED"
    and "reachability_distance (heap s ob) = UNDEFINED \<or> v < reachability_distance (heap s ob)"
    and "heap s1 = (heap s)(ob := (heap s ob)\<lparr>reachability_distance := v\<rparr>)"
    and "rlog s1 = rlog s @ [(ob, False, reachability_distance (heap s ob), v)]"
    and "set seeds \<subseteq> set seeds1" "ob \<in> set seeds1"
  shows "step db s seeds s1 seeds1"
proof -
  have a: "\<forall>h. data (heap s1 h) = data (heap s h)" using assms(6) by simp
  have b: "\<forall>h. is_processed (heap s h) \<longrightarrow> heap s1 h = heap s h" using assms(1,6) by auto
  let ?ws = "[(ob, False, reachability_distance (heap s ob), v)]"
  have d: "\<forall>w\<in>set ?ws. \<not> is_processed (heap s (fst w)) \<and> \<not> fst (snd w)" using assms(1) by simp
  have e: "tidy s db seeds \<longrightarrow> (\<forall>w\<in>set ?ws. monotone_write w)"
  proof
    assume t: "tidy s db seeds"
    then have "reachability_distance (heap s ob) \<le> UNDEFINED" using assms(2) by (simp add: tidy_def)
    then show "\<forall>w\<in>set ?ws. monotone_write w"
      using assms(3,4,5) by (auto simp: monotone_write_def)
  qed
  have f: "tidy s db seeds \<longrightarrow> tidy s1 db seeds1"
    using assms(4,6,8,9) by (auto simp: tidy_def)
  have "(\<lambda>h. reachability_distance (heap s1 h))
      = (\<lambda>h. if h = ob then v else reachability_distance (heap s h))"
    using assms(6) by auto
  then have r: "replay (\<lambda>h. reachability_distance (heap s h)) ?ws
      = Some (\<lambda>h. reachability_distance (heap s1 h))"
    by simp
  show ?thesis unfolding step_def using a b assms(7) r d e f by blast
qed

subsection \<open>One write of update_seeds\<close>

lemma seed_write:
  assumes "same_dim s db" "seeds_inv s db seeds0" "ob \<in> set db" "\<not> is_processed (heap s ob)"
    and "ob \<notin> set seeds0" "0 \<le> v" "v < UNDEFINED"
  shows "\<exists>s1 seeds1. set_reachability_distance s ob v = Inr s1
           \<and> set_insert s1 ob seeds0 = Inr seeds1
           \<and> seeds_inv s1 db seeds1 \<and> set seeds1 = insert ob (set seeds0)
           \<and> heap s1 = (heap s)(ob := (heap s ob)\<lparr>reachability_distance := v\<rparr>)
           \<and> rlog s1 = rlog s @ [(ob, False, reachability_distance (heap s ob), v)]"
proof -
  define s1 where "s1 = s\<lparr>heap := (heap s)(ob := (heap s ob)\<lparr>reachability_distance := v\<rparr>),
      rlog := rlog s @ [(ob, is_processed (heap s ob), reachability_distance (heap s ob), v)]\<rparr>"
  have w: "set_reachability_distance s ob v = Inr s1"
    using assms(6) by (simp add: set_reachability_distance_def s1_def)
  have h: "heap s1 = (heap s)(ob := (heap s ob)\<lparr>reachability_distance := v\<rparr>)"
    and l: "rlog s1 = rlog s @ [(ob, False, reachability_distance (heap s ob), v)]"
    using assms(4) by (simp_all add: s1_def)
  have sub: "set seeds0 \<subseteq> set db" using assms(2) by (simp add: seeds_inv_def)
  have "\<And>a b. a \<in> set seeds0 \<Longrightarrow> b \<in> set seeds0 \<Longrightarrow> key_less s1 a b = key_less s a b"
    using assms(5) h by (auto simp: key_less_def)
  then have "sorted_wrt (key_less s1) seeds0 = sorted_wrt (key_less s) seeds0"
    by (rule sorted_wrt_cong_on)
  then have so: "sorted_wrt (key_less s1) seeds0" using assms(2) by (simp add: seeds_inv_def)
  have "\<forall>y\<in>set seeds0. length (data (heap s y)) = length (data (heap s ob))"
    using assms(1,3) sub unfolding same_dim_def by blast
  then have dims: "\<forall>y\<in>set seeds0. length (data (heap s1 y)) = length (data (heap s1 ob))"
    using h by simp
  obtain seeds1 where i: "set_insert s1 ob seeds0 = Inr seeds1" "set seeds1 = insert ob (set seeds0)"
      "sorted_wrt (key_less s1) seeds1"
    using set_insert_sorted[OF dims so] by blast
  have "\<forall>q\<in>set seeds1. \<not> is_processed (heap s1 q) \<and> reachability_distance (heap s1 q) \<noteq> UNDEFINED"
    using i(2) h assms(2,4,7) by (auto simp: seeds_inv_def)
  then have "seeds_inv s1 db seeds1"
    using i(2,3) sub assms(3) by (simp add: seeds_inv_def)
  then show ?thesis using w i(1,2) h l by blast
qed

subsection \<open>update_seeds\<close>

lemma update_seeds_loop_step:
  assumes "same_dim s db" "dist_below s db" "set N \<subseteq> set db" "c \<in> set db"
    and "c_dist < UNDEFINED" "seeds_inv s db seeds"
  shows "\<exists>s' seeds'. update_seeds_loop s N c c_dist seeds = Inr (s', seeds')
           \<and> seeds_inv s' db seeds' \<and> step db s seeds s' seeds'
           \<and> (\<forall>h. is_processed (heap s' h) = is_processed (heap s h))"
  using assms
proof (induction N arbitrary: s seeds)
  case Nil
  then show ?case by (simp add: step_refl)
next
  case (Cons ob N)
  have ob: "ob \<in> set db" and N: "set N \<subseteq> set db" using Cons.prems(3) by simp_all
  show ?case
  proof (cases "is_processed (heap s ob)")
    case True
    then show ?thesis using Cons.IH[OF Cons.prems(1,2) N Cons.prems(4,5,6)] by simp
  next
    case False
    have "length (data (heap s c)) = length (data (heap s ob))"
      using Cons.prems(1,4) ob unfolding same_dim_def by blast
    then have sd: "squared_distance s c ob = Inr (dist2 s c ob)" by (rule squared_distance_dist2)
    define v where "v = max c_dist (dist2 s c ob)"
    have "dist2 s c ob < UNDEFINED" using Cons.prems(2,4) ob unfolding dist_below_def by blast
    then have v: "0 \<le> v" "v < UNDEFINED"
      using dist2_nonneg[of s c ob] Cons.prems(5) by (simp_all add: v_def max_def)
    have cont: "\<exists>s' seeds'. update_seeds_loop s1 N c c_dist seeds1 = Inr (s', seeds')
           \<and> seeds_inv s' db seeds' \<and> step db s seeds s' seeds'
           \<and> (\<forall>h. is_processed (heap s' h) = is_processed (heap s h))"
      if w: "seeds_inv s1 db seeds1" "set seeds1 = insert ob (set seeds)"
        "heap s1 = (heap s)(ob := (heap s ob)\<lparr>reachability_distance := v\<rparr>)"
        "rlog s1 = rlog s @ [(ob, False, reachability_distance (heap s ob), v)]"
        "reachability_distance (heap s ob) = UNDEFINED \<or> v < reachability_distance (heap s ob)"
      for s1 seeds1
    proof -
      have st: "step db s seeds s1 seeds1"
        by (rule step_write[OF False ob v w(5) w(3) w(4)]) (use w(2) in auto)
      have dat: "\<forall>h. data (heap s1 h) = data (heap s h)" using w(3) by simp
      have g: "same_dim s1 db" "dist_below s1 db"
        using Cons.prems(1,2) same_dim_same_data[OF dat] dist_below_same_data[OF dat] by simp_all
      obtain s' seeds' where r: "update_seeds_loop s1 N c c_dist seeds1 = Inr (s', seeds')"
          "seeds_inv s' db seeds'" "step db s1 seeds1 s' seeds'"
          "\<forall>h. is_processed (heap s' h) = is_processed (heap s1 h)"
        using Cons.IH[OF g N Cons.prems(4,5) w(1)] by blast
      have "\<forall>h. is_processed (heap s' h) = is_processed (heap s h)" using r(4) w(3) by simp
      then show ?thesis using r(1,2) step_trans[OF st r(3)] by blast
    qed
    show ?thesis
    proof (cases "reachability_distance (heap s ob) = UNDEFINED")
      case True
      have "ob \<notin> set seeds" using True Cons.prems(6) by (auto simp: seeds_inv_def)
      from seed_write[OF Cons.prems(1,6) ob False this v]
      obtain s1 seeds1 where w: "set_reachability_distance s ob v = Inr s1"
          "set_insert s1 ob seeds = Inr seeds1" "seeds_inv s1 db seeds1"
          "set seeds1 = insert ob (set seeds)"
          "heap s1 = (heap s)(ob := (heap s ob)\<lparr>reachability_distance := v\<rparr>)"
          "rlog s1 = rlog s @ [(ob, False, reachability_distance (heap s ob), v)]"
        by blast
      have "update_seeds_loop s (ob # N) c c_dist seeds = update_seeds_loop s1 N c c_dist seeds1"
        using False True sd w(1,2) by (simp add: v_def[symmetric])
      then show ?thesis using cont[OF w(3,4,5,6)] True by simp
    next
      case undef: False
      show ?thesis
      proof (cases "v < reachability_distance (heap s ob)")
        case True
        have so: "sorted_wrt (key_less s) seeds" and sub: "set seeds \<subseteq> set db"
          using Cons.prems(6) by (simp_all add: seeds_inv_def)
        have "\<forall>y\<in>set seeds. length (data (heap s y)) = length (data (heap s ob))"
          using Cons.prems(1) sub ob unfolding same_dim_def by blast
        from set_erase_sorted[OF this so]
        obtain seeds0 where e: "set_erase s ob seeds = Inr seeds0" "set seeds0 = set seeds - {ob}"
            "sorted_wrt (key_less s) seeds0"
          by blast
        have inv0: "seeds_inv s db seeds0"
          using e(2,3) Cons.prems(6) by (auto simp: seeds_inv_def)
        have "ob \<notin> set seeds0" using e(2) by simp
        from seed_write[OF Cons.prems(1) inv0 ob False this v]
        obtain s1 seeds1 where w: "set_reachability_distance s ob v = Inr s1"
            "set_insert s1 ob seeds0 = Inr seeds1" "seeds_inv s1 db seeds1"
            "set seeds1 = insert ob (set seeds0)"
            "heap s1 = (heap s)(ob := (heap s ob)\<lparr>reachability_distance := v\<rparr>)"
            "rlog s1 = rlog s @ [(ob, False, reachability_distance (heap s ob), v)]"
          by blast
        have s1: "set seeds1 = insert ob (set seeds)" using w(4) e(2) by auto
        have "update_seeds_loop s (ob # N) c c_dist seeds = update_seeds_loop s1 N c c_dist seeds1"
          using False undef True sd e(1) w(1,2) by (simp add: v_def[symmetric])
        then show ?thesis using cont[OF w(3) s1 w(5,6)] True by simp
      next
        case nolt: False
        have "update_seeds_loop s (ob # N) c c_dist seeds = update_seeds_loop s N c c_dist seeds"
          using False undef nolt sd by (simp add: v_def[symmetric])
        then show ?thesis using Cons.IH[OF Cons.prems(1,2) N Cons.prems(4,5,6)] by simp
      qed
    qed
  qed
qed

lemma update_seeds_step:
  assumes "same_dim s db" "dist_below s db" "set N \<subseteq> set db" "c \<in> set db"
    and "c_dist < UNDEFINED" "seeds_inv s db seeds"
  shows "\<exists>s' seeds'. update_seeds s N c c_dist seeds = Inr (s', seeds')
           \<and> seeds_inv s' db seeds' \<and> step db s seeds s' seeds'
           \<and> (\<forall>h. is_processed (heap s' h) = is_processed (heap s h))"
  using update_seeds_loop_step[OF assms] assms(5) by (simp add: update_seeds_def)

section \<open>The ordering algorithm returns\<close>

subsection \<open>Bookkeeping of the ordering\<close>

lemma emitted_refl: "emitted db s s ordered ordered"
  by (simp add: emitted_def)

lemma emitted_trans:
  assumes "emitted db s s1 ord0 ord1" "emitted db s1 s2 ord1 ord2"
    and "\<forall>h. is_processed (heap s h) \<longrightarrow> is_processed (heap s1 h)"
    and "\<forall>h. is_processed (heap s1 h) \<longrightarrow> is_processed (heap s2 h)"
  shows "emitted db s s2 ord0 ord2"
proof -
  obtain n1 where n1: "ord1 = ord0 @ n1" "distinct n1"
      "set n1 = {h \<in> set db. is_processed (heap s1 h) \<and> \<not> is_processed (heap s h)}"
    using assms(1) unfolding emitted_def by blast
  obtain n2 where n2: "ord2 = ord1 @ n2" "distinct n2"
      "set n2 = {h \<in> set db. is_processed (heap s2 h) \<and> \<not> is_processed (heap s1 h)}"
    using assms(2) unfolding emitted_def by blast
  have a: "ord2 = ord0 @ (n1 @ n2)" using n1(1) n2(1) by simp
  have b: "distinct (n1 @ n2)" using n1(2,3) n2(2,3) by auto
  have c: "set (n1 @ n2) = {h \<in> set db. is_processed (heap s2 h) \<and> \<not> is_processed (heap s h)}"
    using n1(3) n2(3) assms(3,4) by auto
  show ?thesis unfolding emitted_def using a b c by blast
qed

lemma emitted_one:
  assumes "q \<in> set db" "\<not> is_processed (heap s q)"
    and "\<forall>h. is_processed (heap s1 h) = (is_processed (heap s h) \<or> h = q)"
  shows "emitted db s s1 ordered (ordered @ [q])"
proof -
  have "set [q] = {h \<in> set db. is_processed (heap s1 h) \<and> \<not> is_processed (heap s h)}"
    using assms by auto
  then show ?thesis unfolding emitted_def by (metis distinct_singleton)
qed

lemma step_weaken:
  assumes "step db s A s' B" "set A' \<subseteq> set A"
  shows "step db s A' s' B"
proof -
  have "tidy s db A' \<longrightarrow> tidy s db A" using assms(2) by (auto simp: tidy_def)
  then show ?thesis using assms(1) unfolding step_def by blast
qed

lemma step_monotone: "step db s A s' B \<Longrightarrow> is_processed (heap s h) \<Longrightarrow> is_processed (heap s' h)"
  by (simp add: step_processed)

subsection \<open>The seed loop returns\<close>

lemma seeds_inv_pop:
  assumes "seeds_inv s db (q # seeds')"
  shows "seeds_inv (processed s q True) db seeds'"
proof -
  have so: "sorted_wrt (key_less s) (q # seeds')" using assms by (simp add: seeds_inv_def)
  then have "distinct (q # seeds')" by (rule sorted_wrt_key_less_distinct)
  then have nq: "q \<notin> set seeds'" by simp
  have "key_less (processed s q True) = key_less s"
    by (intro ext) (simp add: key_less_def processed_def)
  then have "sorted_wrt (key_less (processed s q True)) seeds'" using so by simp
  then show ?thesis using assms nq by (auto simp: seeds_inv_def processed_def)
qed

lemma unprocessed_card_less:
  assumes "q \<in> set db" "\<not> is_processed (heap s q)"
    and "\<forall>h. is_processed (heap s1 h) = (is_processed (heap s h) \<or> h = q)"
  shows "card {h \<in> set db. \<not> is_processed (heap s1 h)} < card {h \<in> set db. \<not> is_processed (heap s h)}"
proof -
  have "{h \<in> set db. \<not> is_processed (heap s1 h)} \<subset> {h \<in> set db. \<not> is_processed (heap s h)}"
    using assms by auto
  moreover have "finite {h \<in> set db. \<not> is_processed (heap s h)}" by simp
  ultimately show ?thesis by (rule psubset_card_mono[rotated])
qed

lemma seeds_loop_total:
  assumes "same_dim s db" "dist_below s db" "0 \<le> eps" "0 < min_pts" "seeds_inv s db seeds"
  shows "\<exists>ord' s'. seeds_loop s db eps min_pts ordered seeds = Some (Inr (ord', s'))
           \<and> step db s seeds s' [] \<and> emitted db s s' ordered ord'"
  using assms
proof (induction "card {h \<in> set db. \<not> is_processed (heap s h)}" arbitrary: s seeds ordered rule: less_induct)
  case less
  show ?case
  proof (cases seeds)
    case Nil
    have "seeds_loop s db eps min_pts ordered [] = Some (Inr (ordered, s))"
      by (subst seeds_loop.simps) simp
    then show ?thesis using Nil step_refl emitted_refl by blast
  next
    case (Cons q seeds')
    have inv: "seeds_inv s db (q # seeds')" using less.prems(5) Cons by simp
    have q: "q \<in> set db" "\<not> is_processed (heap s q)" using inv by (simp_all add: seeds_inv_def)
    define N_q where "N_q = filter (\<lambda>x. dist2 s q x \<le> to_float (eps * eps)) db"
    have gn: "get_neighbors s q eps db = Inr N_q"
      unfolding N_q_def using less.prems(1) q(1) less.prems(3) by (rule get_neighbors_filter)
    have Nsub: "set N_q \<subseteq> set db" by (auto simp: N_q_def)
    have "\<forall>x\<in>set N_q. length (data (heap s x)) = length (data (heap s q))"
      using less.prems(1) Nsub q(1) unfolding same_dim_def by blast
    from squared_core_distance_cases[OF less.prems(4) this]
    obtain cd N' where cd: "squared_core_distance s q min_pts N_q = Inr (cd, N')" "set N' = set N_q"
        "cd = UNDEFINED \<or> (\<exists>x\<in>set N_q. cd = dist2 s q x)"
      by blast
    define s1 where "s1 = processed s q True"
    have p1: "\<forall>h. is_processed (heap s1 h) = (is_processed (heap s h) \<or> h = q)"
      by (simp add: s1_def processed_def)
    have st1: "step db s (q # seeds') s1 seeds'" unfolding s1_def by (rule step_mark_processed)
    have inv1: "seeds_inv s1 db seeds'" unfolding s1_def using inv by (rule seeds_inv_pop)
    have dat1: "\<forall>h. data (heap s1 h) = data (heap s h)" using st1 by (rule step_data)
    have g1: "same_dim s1 db" "dist_below s1 db"
      using less.prems(1,2) same_dim_same_data[OF dat1] dist_below_same_data[OF dat1] by simp_all
    have m1: "card {h \<in> set db. \<not> is_processed (heap s1 h)} < card {h \<in> set db. \<not> is_processed (heap s h)}"
      using q p1 by (rule unprocessed_card_less)
    have e1: "emitted db s s1 ordered (ordered @ [q])" using q p1 by (rule emitted_one)
    show ?thesis
    proof (cases "cd = UNDEFINED")
      case True
      have unf: "seeds_loop s db eps min_pts ordered seeds = seeds_loop s1 db eps min_pts (ordered @ [q]) seeds'"
        by (subst seeds_loop.simps) (simp add: Cons gn cd(1) True s1_def)
      obtain ord' s' where r: "seeds_loop s1 db eps min_pts (ordered @ [q]) seeds' = Some (Inr (ord', s'))"
          "step db s1 seeds' s' []" "emitted db s1 s' (ordered @ [q]) ord'"
        using less.hyps[OF m1 g1 less.prems(3,4) inv1] by blast
      have "step db s seeds s' []" using step_trans[OF st1 r(2)] Cons by simp
      moreover have "emitted db s s' ordered ord'"
        using e1 r(3) by (rule emitted_trans) (use p1 step_monotone[OF r(2)] in auto)
      ultimately show ?thesis using unf r(1) by simp
    next
      case False
      then obtain x where "x \<in> set N_q" "cd = dist2 s q x" using cd(3) by blast
      then have cdlt: "cd < UNDEFINED" using less.prems(2) q(1) Nsub unfolding dist_below_def by blast
      have N'sub: "set N' \<subseteq> set db" using cd(2) Nsub by simp
      from update_seeds_step[OF g1 N'sub q(1) cdlt inv1]
      obtain s2 seeds2 where u: "update_seeds s1 N' q cd seeds' = Inr (s2, seeds2)"
          "seeds_inv s2 db seeds2" "step db s1 seeds' s2 seeds2"
          "\<forall>h. is_processed (heap s2 h) = is_processed (heap s1 h)"
        by blast
      have unf: "seeds_loop s db eps min_pts ordered seeds = seeds_loop s2 db eps min_pts (ordered @ [q]) seeds2"
        by (subst seeds_loop.simps) (simp add: Cons gn cd(1) False s1_def[symmetric] u(1))
      have dat2: "\<forall>h. data (heap s2 h) = data (heap s1 h)" using u(3) by (rule step_data)
      have g2: "same_dim s2 db" "dist_below s2 db"
        using g1 same_dim_same_data[OF dat2] dist_below_same_data[OF dat2] by simp_all
      have m2: "card {h \<in> set db. \<not> is_processed (heap s2 h)} < card {h \<in> set db. \<not> is_processed (heap s h)}"
        using m1 u(4) by simp
      obtain ord' s' where r: "seeds_loop s2 db eps min_pts (ordered @ [q]) seeds2 = Some (Inr (ord', s'))"
          "step db s2 seeds2 s' []" "emitted db s2 s' (ordered @ [q]) ord'"
        using less.hyps[OF m2 g2 less.prems(3,4) u(2)] by blast
      have p2: "\<forall>h. is_processed (heap s2 h) = (is_processed (heap s h) \<or> h = q)"
        using p1 u(4) by simp
      have e2: "emitted db s s2 ordered (ordered @ [q])" using q p2 by (rule emitted_one)
      have "step db s seeds s' []" using step_trans[OF step_trans[OF st1 u(3)] r(2)] Cons by simp
      moreover have "emitted db s s' ordered ord'"
        using e2 r(3) by (rule emitted_trans) (use p2 step_monotone[OF r(2)] in auto)
      ultimately show ?thesis using unf r(1) by simp
    qed
  qed
qed

subsection \<open>expand_cluster_order returns\<close>

lemma step_reset:
  assumes "\<not> is_processed (heap s p)" "p \<in> set db"
    and "heap s1 = (heap s)(p := (heap s p)\<lparr>reachability_distance := UNDEFINED\<rparr>)"
    and "rlog s1 = rlog s @ [(p, False, reachability_distance (heap s p), UNDEFINED)]"
  shows "step db s [] s1 []"
proof -
  have a: "\<forall>h. data (heap s1 h) = data (heap s h)" using assms(3) by simp
  have b: "\<forall>h. is_processed (heap s h) \<longrightarrow> heap s1 h = heap s h" using assms(1,3) by auto
  let ?ws = "[(p, False, reachability_distance (heap s p), UNDEFINED)]"
  have d: "\<forall>w\<in>set ?ws. \<not> is_processed (heap s (fst w)) \<and> \<not> fst (snd w)" using assms(1) by simp
  have u: "0 \<le> UNDEFINED" by (simp add: UNDEFINED_def numeric_limits_max_def)
  have e: "tidy s db [] \<longrightarrow> (\<forall>w\<in>set ?ws. monotone_write w)"
  proof
    assume "tidy s db []"
    then have "reachability_distance (heap s p) = UNDEFINED"
      using assms(1,2) by (auto simp: tidy_def)
    then show "\<forall>w\<in>set ?ws. monotone_write w" using u by (simp add: monotone_write_def)
  qed
  have f: "tidy s db [] \<longrightarrow> tidy s1 db []"
    using assms(3) by (auto simp: tidy_def)
  have "(\<lambda>h. reachability_distance (heap s1 h))
      = (\<lambda>h. if h = p then UNDEFINED else reachability_distance (heap s h))"
    using assms(3) by auto
  then have r: "replay (\<lambda>h. reachability_distance (heap s h)) ?ws
      = Some (\<lambda>h. reachability_distance (heap s1 h))"
    by simp
  show ?thesis unfolding step_def using a b assms(4) r d e f by blast
qed

lemma expand_cluster_order_total:
  assumes "same_dim s db" "dist_below s db" "0 \<le> eps" "0 < min_pts"
    and "p \<in> set db" "\<not> is_processed (heap s p)"
  shows "\<exists>ord' s'. expand_cluster_order s db p eps min_pts ordered = Some (Inr (ord', s'))
           \<and> step db s [] s' [] \<and> emitted db s s' ordered ord'
           \<and> (\<exists>more. ord' = ordered @ p # more)
           \<and> is_processed (heap s' p) \<and> reachability_distance (heap s' p) = UNDEFINED
           \<and> (\<exists>ws. rlog s' = rlog s @ (p, False, reachability_distance (heap s p), UNDEFINED) # ws
                  \<and> (\<forall>w\<in>set ws. fst w \<noteq> p))"
proof -
  define N_eps where "N_eps = filter (\<lambda>x. dist2 s p x \<le> to_float (eps * eps)) db"
  have gn: "get_neighbors s p eps db = Inr N_eps"
    unfolding N_eps_def using assms(1,5,3) by (rule get_neighbors_filter)
  have Nsub: "set N_eps \<subseteq> set db" by (auto simp: N_eps_def)
  define s1 where "s1 = s\<lparr>heap := (heap s)(p := (heap s p)\<lparr>reachability_distance := UNDEFINED\<rparr>),
      rlog := rlog s @ [(p, is_processed (heap s p), reachability_distance (heap s p), UNDEFINED)]\<rparr>"
  have u: "0 \<le> UNDEFINED" by (simp add: UNDEFINED_def numeric_limits_max_def)
  have w: "set_reachability_distance s p UNDEFINED = Inr s1"
    using u by (simp add: set_reachability_distance_def s1_def)
  have h1: "heap s1 = (heap s)(p := (heap s p)\<lparr>reachability_distance := UNDEFINED\<rparr>)"
    and l1: "rlog s1 = rlog s @ [(p, False, reachability_distance (heap s p), UNDEFINED)]"
    using assms(6) by (simp_all add: s1_def)
  have st1: "step db s [] s1 []" using assms(6,5) h1 l1 by (rule step_reset)
  have dat1: "\<forall>h. data (heap s1 h) = data (heap s h)" using st1 by (rule step_data)
  have g1: "same_dim s1 db" "dist_below s1 db"
    using assms(1,2) same_dim_same_data[OF dat1] dist_below_same_data[OF dat1] by simp_all
  have "\<forall>x\<in>set N_eps. length (data (heap s1 x)) = length (data (heap s1 p))"
    using g1(1) Nsub assms(5) unfolding same_dim_def by blast
  from squared_core_distance_cases[OF assms(4) this]
  obtain cd N' where cd: "squared_core_distance s1 p min_pts N_eps = Inr (cd, N')" "set N' = set N_eps"
      "cd = UNDEFINED \<or> (\<exists>x\<in>set N_eps. cd = dist2 s1 p x)"
    by blast
  define s2 where "s2 = processed s1 p True"
  have p2: "\<forall>h. is_processed (heap s2 h) = (is_processed (heap s h) \<or> h = p)"
    by (simp add: s2_def processed_def h1)
  have st2: "step db s1 [] s2 []"
    unfolding s2_def by (rule step_weaken[OF step_mark_processed]) simp
  have st12: "step db s [] s2 []" using st1 st2 by (rule step_trans)
  have r2: "is_processed (heap s2 p)" "reachability_distance (heap s2 p) = UNDEFINED"
    by (simp_all add: s2_def processed_def h1)
  have l2: "rlog s2 = rlog s @ [(p, False, reachability_distance (heap s p), UNDEFINED)]"
    using l1 by (simp add: s2_def processed_def)
  have e2: "emitted db s s2 ordered (ordered @ [p])" using assms(5,6) p2 by (rule emitted_one)
  have dat2: "\<forall>h. data (heap s2 h) = data (heap s1 h)" using st2 by (rule step_data)
  have g2: "same_dim s2 db" "dist_below s2 db"
    using g1 same_dim_same_data[OF dat2] dist_below_same_data[OF dat2] by simp_all
  have unf: "expand_cluster_order s db p eps min_pts ordered =
      (if cd = UNDEFINED then Some (Inr (ordered @ [p], s2))
       else (case update_seeds s2 N' p cd [] of
               Inl e \<Rightarrow> Some (Inl e)
             | Inr (s3, seeds) \<Rightarrow> seeds_loop s3 db eps min_pts (ordered @ [p]) seeds))"
    using assms(3,4) by (simp add: expand_cluster_order_def gn w cd(1) s2_def)
  have fin: "\<exists>ord' s'. expand_cluster_order s db p eps min_pts ordered = Some (Inr (ord', s'))
           \<and> step db s2 [] s' [] \<and> emitted db s2 s' (ordered @ [p]) ord'"
  proof (cases "cd = UNDEFINED")
    case True
    then show ?thesis using unf step_refl emitted_refl by auto
  next
    case False
    then obtain x where "x \<in> set N_eps" "cd = dist2 s1 p x" using cd(3) by blast
    then have cdlt: "cd < UNDEFINED" using g1(2) assms(5) Nsub unfolding dist_below_def by blast
    have N'sub: "set N' \<subseteq> set db" using cd(2) Nsub by simp
    have inv2: "seeds_inv s2 db []" by (simp add: seeds_inv_def)
    from update_seeds_step[OF g2 N'sub assms(5) cdlt inv2]
    obtain s3 seeds3 where us: "update_seeds s2 N' p cd [] = Inr (s3, seeds3)"
        "seeds_inv s3 db seeds3" "step db s2 [] s3 seeds3"
        "\<forall>h. is_processed (heap s3 h) = is_processed (heap s2 h)"
      by blast
    have dat3: "\<forall>h. data (heap s3 h) = data (heap s2 h)" using us(3) by (rule step_data)
    have g3: "same_dim s3 db" "dist_below s3 db"
      using g2 same_dim_same_data[OF dat3] dist_below_same_data[OF dat3] by simp_all
    from seeds_loop_total[OF g3 assms(3,4) us(2), of "ordered @ [p]"]
    obtain ord' s' where r: "seeds_loop s3 db eps min_pts (ordered @ [p]) seeds3 = Some (Inr (ord', s'))"
        "step db s3 seeds3 s' []" "emitted db s3 s' (ordered @ [p]) ord'"
      by blast
    have "emitted db s2 s3 (ordered @ [p]) (ordered @ [p])"
      using us(4) by (simp add: emitted_def)
    then have "emitted db s2 s' (ordered @ [p]) ord'"
      using r(3) by (rule emitted_trans) (use us(4) step_monotone[OF r(2)] in auto)
    then show ?thesis using unf False us(1) r(1) step_trans[OF us(3) r(2)] by auto
  qed
  then obtain ord' s' where r: "expand_cluster_order s db p eps min_pts ordered = Some (Inr (ord', s'))"
      "step db s2 [] s' []" "emitted db s2 s' (ordered @ [p]) ord'"
    by blast
  have a: "step db s [] s' []" using st12 r(2) by (rule step_trans)
  have b: "emitted db s s' ordered ord'"
    using e2 r(3) by (rule emitted_trans) (use p2 step_monotone[OF r(2)] in auto)
  have c: "\<exists>more. ord' = ordered @ p # more" using r(3) by (auto simp: emitted_def)
  have hp: "heap s' p = heap s2 p" using r(2) r2(1) by (rule step_processed)
  obtain ws where ws: "rlog s' = rlog s2 @ ws" "\<forall>w\<in>set ws. \<not> is_processed (heap s2 (fst w))"
    using r(2) unfolding step_def by blast
  have "\<forall>w\<in>set ws. fst w \<noteq> p" using ws(2) r2(1) by auto
  then have d: "\<exists>ws. rlog s' = rlog s @ (p, False, reachability_distance (heap s p), UNDEFINED) # ws
                  \<and> (\<forall>w\<in>set ws. fst w \<noteq> p)"
    using ws(1) l2 by simp
  show ?thesis using r(1) a b c hp r2 d by auto
qed

subsection \<open>The main loop returns\<close>

lemma optics_loop_total:
  assumes "same_dim s db" "dist_below s db" "0 \<le> eps" "0 < min_pts" "set rest \<subseteq> set db"
  shows "\<exists>ord' s'. optics_loop s db rest eps min_pts ordered = Some (Inr (ord', s'))
           \<and> step db s [] s' [] \<and> emitted db s s' ordered ord'
           \<and> (\<forall>h\<in>set rest. is_processed (heap s' h))"
  using assms
proof (induction rest arbitrary: s ordered)
  case Nil
  then show ?case using step_refl emitted_refl by auto
next
  case (Cons p rest)
  have p: "p \<in> set db" and rest: "set rest \<subseteq> set db" using Cons.prems(5) by simp_all
  show ?case
  proof (cases "is_processed (heap s p)")
    case True
    obtain ord' s' where r: "optics_loop s db rest eps min_pts ordered = Some (Inr (ord', s'))"
        "step db s [] s' []" "emitted db s s' ordered ord'" "\<forall>h\<in>set rest. is_processed (heap s' h)"
      using Cons.IH[OF Cons.prems(1,2,3,4) rest] by blast
    have "is_processed (heap s' p)" using r(2) True by (rule step_monotone)
    then show ?thesis using True r by simp
  next
    case False
    from expand_cluster_order_total[OF Cons.prems(1,2,3,4) p False, of ordered]
    obtain ord1 s1 where e: "expand_cluster_order s db p eps min_pts ordered = Some (Inr (ord1, s1))"
        "step db s [] s1 []" "emitted db s s1 ordered ord1" "is_processed (heap s1 p)"
      by blast
    have dat1: "\<forall>h. data (heap s1 h) = data (heap s h)" using e(2) by (rule step_data)
    have g1: "same_dim s1 db" "dist_below s1 db"
      using Cons.prems(1,2) same_dim_same_data[OF dat1] dist_below_same_data[OF dat1] by simp_all
    obtain ord' s' where r: "optics_loop s1 db rest eps min_pts ord1 = Some (Inr (ord', s'))"
        "step db s1 [] s' []" "emitted db s1 s' ord1 ord'" "\<forall>h\<in>set rest. is_processed (heap s' h)"
      using Cons.IH[OF g1 Cons.prems(3,4) rest] by blast
    have "is_processed (heap s' p)" using r(2) e(4) by (rule step_monotone)
    moreover have "emitted db s s' ordered ord'"
      using e(3) r(3) by (rule emitted_trans) (use step_monotone[OF e(2)] step_monotone[OF r(2)] in auto)
    ultimately show ?thesis using False e(1) r(1,4) step_trans[OF e(2) r(2)] by simp
  qed
qed

section \<open>Properties of a run of optics\<close>

subsection \<open>The concrete inputs\<close>

lemma two_points_same_dim: "same_dim two_points [0, 1]"
  by (simp add: same_dim_def two_points_def fresh_point_def)

lemma two_points_dist_below: "dist_below two_points [0, 1]"
  by (simp add: dist_below_def dist2_def squared_distance_loop_def float_evals two_points_def
      fresh_point_def UNDEFINED_def numeric_limits_max_def)

lemma two_points_float_coordinates: "float_coordinates two_points [0, 1]"
  by (simp add: float_coordinates_def finite_float_def float_evals two_points_def fresh_point_def)

lemma two_points_all_fresh: "all_fresh two_points [0, 1]"
  by (simp add: all_fresh_def two_points_def fresh_point_def)

subsection \<open>Coverage\<close>

text \<open>
  Where every squared distance the engine computes is below the sentinel, the ordering
  covers the dataset: \<open>optics\<close> returns, and its ordering has the length of the dataset and
  the same multiset of handles.
\<close>

lemma optics_coverage_below_sentinel:
  assumes "0 \<le> eps" and "1 \<le> min_pts"
    and "distinct db" and "same_dim s db" and "float_coordinates s db" and "dist_below s db"
    and "all_unprocessed s db"
  shows "\<exists>ord s'. optics s db eps min_pts = Some (Inr (ord, s'))
           \<and> length ord = length db \<and> mset ord = mset db \<and> distinct ord"
proof -
  have m: "0 < min_pts" using assms(2) by simp
  from optics_loop_total[OF assms(4,6,1) m subset_refl, of "[]"]
  obtain ord s' where r: "optics_loop s db db eps min_pts [] = Some (Inr (ord, s'))"
      "emitted db s s' [] ord" "\<forall>h\<in>set db. is_processed (heap s' h)"
    by blast
  have d: "distinct ord"
    and "set ord = {h \<in> set db. is_processed (heap s' h) \<and> \<not> is_processed (heap s h)}"
    using r(2) by (auto simp: emitted_def)
  then have "set ord = set db" using r(3) assms(7) by (auto simp: all_unprocessed_def)
  then have ms: "mset ord = mset db" using d assms(3) by (simp add: set_eq_iff_mset_eq_distinct)
  then have "length ord = length db" by (metis size_mset)
  moreover have "optics s db eps min_pts = Some (Inr (ord, s'))"
    using r(1) assms(1) m by (simp add: optics_def)
  ultimately show ?thesis using ms d by blast
qed


subsection \<open>No reset\<close>

lemma optics_loop_append:
  "optics_loop s db (xs @ ys) eps min_pts ordered =
     (case optics_loop s db xs eps min_pts ordered of
        None \<Rightarrow> None
      | Some (Inl e) \<Rightarrow> Some (Inl e)
      | Some (Inr (ord1, s1)) \<Rightarrow> optics_loop s1 db ys eps min_pts ord1)"
proof (induction xs arbitrary: s ordered)
  case Nil
  then show ?case by simp
next
  case (Cons x xs)
  then show ?case by (simp split: option.split sum.split prod.split)
qed

lemma optics_loop_all_processed:
  "\<forall>h\<in>set rest. is_processed (heap s h) \<Longrightarrow>
   optics_loop s db rest eps min_pts ordered = Some (Inr (ordered, s))"
  by (induction rest) simp_all

text \<open>
  Claim C4 says that \<open>optics\<close> resets every point before its main loop. The source has no
  reset: a point that arrives processed with reachability 1 is skipped, the ordering is
  empty and the store is returned as it came, whereas the same point fresh from its
  constructor is emitted.
\<close>

theorem optics_no_reset_counterexample:
  "optics one_processed [0] 1 1 = Some (Inr ([], one_processed))
   \<and> is_processed (heap one_processed 0)
   \<and> reachability_distance (heap one_processed 0) \<noteq> UNDEFINED
   \<and> optics one_fresh [0] 1 1 = Some (Inr ([0], after_expand one_fresh))"
  by (simp add: eval_defs one_processed_def one_fresh_def one_point_def after_expand_def)

text \<open>
  Claim C4, amended. \<open>optics\<close> runs its main loop on the store as it is passed in: the
  first expansion starts from the first unprocessed point, on the store of the entry. A
  point that is processed at entry is skipped: it is not emitted and is left exactly as it
  is; the points emitted are unprocessed at entry. So a call on points that are all
  processed, as after an earlier run, returns an empty ordering and the store unchanged.
\<close>

theorem optics_skips_processed_points:
  assumes "0 \<le> eps" and "1 \<le> min_pts"
  shows "(all_processed s db \<longrightarrow> optics s db eps min_pts = Some (Inr ([], s)))
       \<and> (\<forall>visited p remaining.
             db = visited @ p # remaining \<and> all_processed s visited \<and> \<not> is_processed (heap s p) \<longrightarrow>
             optics s db eps min_pts =
               (case expand_cluster_order s db p eps min_pts [] of
                  None \<Rightarrow> None
                | Some (Inl e) \<Rightarrow> Some (Inl e)
                | Some (Inr (ord1, s1)) \<Rightarrow> optics_loop s1 db remaining eps min_pts ord1))
       \<and> (same_dim s db \<and> dist_below s db \<longrightarrow>
            (\<exists>ord s'. optics s db eps min_pts = Some (Inr (ord, s'))
               \<and> (\<forall>h. is_processed (heap s h) \<longrightarrow> heap s' h = heap s h \<and> h \<notin> set ord)
               \<and> (\<forall>h\<in>set ord. \<not> is_processed (heap s h))))"
proof -
  have m: "0 < min_pts" using assms(2) by simp
  have o: "optics s db eps min_pts = optics_loop s db db eps min_pts []"
    using assms(1) m by (simp add: optics_def)
  have a: "all_processed s db \<longrightarrow> optics s db eps min_pts = Some (Inr ([], s))"
    using o by (simp add: all_processed_def optics_loop_all_processed)
  have b: "\<exists>ord s'. optics s db eps min_pts = Some (Inr (ord, s'))
               \<and> (\<forall>h. is_processed (heap s h) \<longrightarrow> heap s' h = heap s h \<and> h \<notin> set ord)
               \<and> (\<forall>h\<in>set ord. \<not> is_processed (heap s h))"
    if g: "same_dim s db" "dist_below s db"
  proof -
    from optics_loop_total[OF g assms(1) m subset_refl, of "[]"]
    obtain ord s' where r: "optics_loop s db db eps min_pts [] = Some (Inr (ord, s'))"
        "step db s [] s' []" "emitted db s s' [] ord"
      by blast
    have "set ord = {h \<in> set db. is_processed (heap s' h) \<and> \<not> is_processed (heap s h)}"
      using r(3) by (auto simp: emitted_def)
    then have "\<forall>h\<in>set ord. \<not> is_processed (heap s h)" by blast
    moreover have "\<forall>h. is_processed (heap s h) \<longrightarrow> heap s' h = heap s h"
      using step_processed[OF r(2)] by blast
    ultimately show ?thesis using r(1) o by auto
  qed
  have c: "optics s db eps min_pts =
               (case expand_cluster_order s db p eps min_pts [] of
                  None \<Rightarrow> None
                | Some (Inl e) \<Rightarrow> Some (Inl e)
                | Some (Inr (ord1, s1)) \<Rightarrow> optics_loop s1 db remaining eps min_pts ord1)"
    if h: "db = visited @ p # remaining" "all_processed s visited" "\<not> is_processed (heap s p)"
    for visited p remaining
  proof -
    have "optics_loop s db visited eps min_pts [] = Some (Inr ([], s))"
      using h(2) by (simp add: all_processed_def optics_loop_all_processed)
    then have e2: "optics_loop s db (visited @ p # remaining) eps min_pts []
        = optics_loop s db (p # remaining) eps min_pts []"
      by (simp add: optics_loop_append)
    have e1: "optics_loop s db db eps min_pts [] = optics_loop s db (visited @ p # remaining) eps min_pts []"
      using h(1) by simp
    have e3: "optics_loop s db (p # remaining) eps min_pts [] =
               (case expand_cluster_order s db p eps min_pts [] of
                  None \<Rightarrow> None
                | Some (Inl e) \<Rightarrow> Some (Inl e)
                | Some (Inr (ord1, s1)) \<Rightarrow> optics_loop s1 db remaining eps min_pts ord1)"
      using h(3) by simp
    show ?thesis unfolding o e1 e2 e3 ..
  qed
  show ?thesis using a b c by blast
qed

theorem optics_skips_processed_points_witness:
  "(0::real) \<le> 1 \<and> (1::nat) \<le> 1 \<and> all_processed one_processed [0]
   \<and> optics one_processed [0] 1 1 = Some (Inr ([], one_processed))
   \<and> [0, 1] = [] @ (0::nat) # [1] \<and> all_processed two_points [] \<and> \<not> is_processed (heap two_points 0)
   \<and> optics two_points [0, 1] 1 1 =
        (case expand_cluster_order two_points [0, 1] 0 1 1 [] of
           None \<Rightarrow> None
         | Some (Inl e) \<Rightarrow> Some (Inl e)
         | Some (Inr (ord1, s1)) \<Rightarrow> optics_loop s1 [0, 1] [1] 1 1 ord1)
   \<and> same_dim two_points [0, 1] \<and> dist_below two_points [0, 1]
   \<and> (\<exists>ord s'. optics two_points [0, 1] 1 1 = Some (Inr (ord, s')))"
proof -
  have h: "(0::real) \<le> 1" "(1::nat) \<le> 1" by simp_all
  have p: "all_processed one_processed [0]"
    by (simp add: all_processed_def one_processed_def one_point_def)
  have q: "[0, 1] = [] @ (0::nat) # [1]" "all_processed two_points []"
    "\<not> is_processed (heap two_points 0)"
    by (simp_all add: all_processed_def two_points_def fresh_point_def)
  show ?thesis
    using optics_skips_processed_points[OF h, of one_processed "[0]"]
      optics_skips_processed_points[OF h, of two_points "[0, 1]"]
      h p q two_points_same_dim two_points_dist_below
    by blast
qed

subsection \<open>Monotone reachability\<close>

text \<open>
  Claim C5 speaks of any run. \<open>expand_cluster_order\<close> writes \<open>UNDEFINED\<close> to the point it
  starts from whatever the point holds, and \<open>optics\<close> does not reset: on an unprocessed
  point that arrives with the reachability 1, the run's only setter call raises the
  finite value to \<open>UNDEFINED\<close>. And on the two fresh points of \<open>far_points\<close> the squared
  distance overflows: the run writes infinity over \<open>UNDEFINED\<close>, which is no finite value.
\<close>

theorem reachability_not_monotone_counterexample:
  "optics one_stale [0] 1 1 = Some (Inr ([0], after_expand one_stale))
   \<and> rlog (after_expand one_stale) = rlog one_stale @ [(0, False, 1, UNDEFINED)]
   \<and> reachability_distance (heap one_stale 0) < UNDEFINED
   \<and> \<not> monotone_write (0, False, 1, UNDEFINED)
   \<and> all_fresh far_points [0, 1]
   \<and> optics far_points [0, 1] (2 ^ 64) 1 = Some (Inr ([0, 1], far_points_done))
   \<and> rlog far_points_done
       = rlog far_points @ [(0, False, UNDEFINED, UNDEFINED), (1, False, UNDEFINED, 2 ^ 128)]
   \<and> \<not> monotone_write (1, False, UNDEFINED, 2 ^ 128)"
proof -
  have a: "optics one_stale [0] 1 1 = Some (Inr ([0], after_expand one_stale))"
    by (simp add: eval_defs one_stale_def one_point_def after_expand_def)
  have b: "rlog (after_expand one_stale) = rlog one_stale @ [(0, False, 1, UNDEFINED)]"
    "reachability_distance (heap one_stale 0) < UNDEFINED"
    "\<not> monotone_write (0, False, 1, UNDEFINED)"
    by (simp_all add: one_stale_def one_point_def after_expand_def monotone_write_def UNDEFINED_def
        numeric_limits_max_def)
  have c: "all_fresh far_points [0, 1]"
    by (simp add: all_fresh_def far_points_def fresh_point_def)
  have d: "optics far_points [0, 1] (2 ^ 64) 1 = Some (Inr ([0, 1], far_points_done))"
    by (simp add: eval_grid_defs far_points_def far_points_done_def fresh_point_def seeds_loop.simps)
  have e: "rlog far_points_done
       = rlog far_points @ [(0, False, UNDEFINED, UNDEFINED), (1, False, UNDEFINED, 2 ^ 128)]"
    "\<not> monotone_write (1, False, UNDEFINED, 2 ^ 128)"
    by (simp_all add: far_points_def far_points_done_def monotone_write_def UNDEFINED_def
        numeric_limits_max_def)
  show ?thesis using a b c d e by simp
qed

text \<open>
  Claim C5, amended. In a run of \<open>optics\<close> on points that are all as their constructor
  leaves them (reachability \<open>UNDEFINED\<close>, unprocessed), with finite coordinates of one
  dimension and with every squared distance the engine computes between two of them below
  \<open>UNDEFINED\<close>: the setter calls of the run account for every change of a reachability
  (replaying them leads from the reachabilities at entry to those at exit), every call is
  made on a point that is unprocessed at that moment, and it either writes over
  \<open>UNDEFINED\<close> or writes a strictly smaller value over a finite one.
\<close>

theorem reachability_writes_monotone:
  assumes "0 \<le> eps" and "1 \<le> min_pts"
    and "same_dim s db" and "float_coordinates s db" and "dist_below s db" and "all_fresh s db"
  shows "\<exists>ord s' ws. optics s db eps min_pts = Some (Inr (ord, s'))
           \<and> rlog s' = rlog s @ ws
           \<and> replay (\<lambda>h. reachability_distance (heap s h)) ws
               = Some (\<lambda>h. reachability_distance (heap s' h))
           \<and> (\<forall>w\<in>set ws. monotone_write w)"
proof -
  have m: "0 < min_pts" using assms(2) by simp
  have t: "tidy s db []" using assms(6) by (simp add: tidy_def all_fresh_def)
  from optics_loop_total[OF assms(3,5,1) m subset_refl, of "[]"]
  obtain ord s' where r: "optics_loop s db db eps min_pts [] = Some (Inr (ord, s'))"
      "step db s [] s' []"
    by blast
  obtain ws where ws: "rlog s' = rlog s @ ws"
      "replay (\<lambda>h. reachability_distance (heap s h)) ws = Some (\<lambda>h. reachability_distance (heap s' h))"
      "tidy s db [] \<longrightarrow> (\<forall>w\<in>set ws. monotone_write w)"
    using r(2) unfolding step_def by blast
  have "optics s db eps min_pts = Some (Inr (ord, s'))"
    using r(1) assms(1) m by (simp add: optics_def)
  then show ?thesis using ws t by blast
qed

theorem reachability_writes_monotone_witness:
  "(0::real) \<le> 2 \<and> (1::nat) \<le> 1 \<and> same_dim two_points [0, 1] \<and> float_coordinates two_points [0, 1]
   \<and> dist_below two_points [0, 1] \<and> all_fresh two_points [0, 1]
   \<and> (\<exists>ord s' ws. optics two_points [0, 1] 2 1 = Some (Inr (ord, s'))
          \<and> rlog s' = rlog two_points @ ws \<and> list_all monotone_write ws)"
proof -
  have h: "(0::real) \<le> 2" "(1::nat) \<le> 1" by simp_all
  show ?thesis
    using reachability_writes_monotone[OF h two_points_same_dim two_points_float_coordinates
        two_points_dist_below two_points_all_fresh]
      h two_points_same_dim two_points_float_coordinates two_points_dist_below two_points_all_fresh
    unfolding list_all_iff by blast
qed

subsection \<open>The first point of an expansion\<close>

text \<open>
  Claim C7. Whenever the main loop of \<open>optics\<close> reaches a point \<open>p\<close> that is unprocessed,
  and so calls \<open>expand_cluster_order\<close> on it: \<open>p\<close> is the next point of the ordering, its
  reachability is \<open>UNDEFINED\<close> when the expansion returns, no setter call of the rest of
  the run is made on \<open>p\<close>, and its reachability is \<open>UNDEFINED\<close> in the store \<open>optics\<close>
  returns.
\<close>

theorem first_emission_undefined:
  assumes "0 \<le> eps" and "1 \<le> min_pts" and "same_dim s db" and "dist_below s db"
    and "db = visited @ p # remaining"
    and "optics_loop s db visited eps min_pts [] = Some (Inr (ord1, s1))"
    and "\<not> is_processed (heap s1 p)"
  shows "\<exists>ord2 s2 ord s'.
           expand_cluster_order s1 db p eps min_pts ord1 = Some (Inr (ord2, s2))
         \<and> (\<exists>more. ord2 = ord1 @ p # more)
         \<and> reachability_distance (heap s2 p) = UNDEFINED
         \<and> optics s db eps min_pts = Some (Inr (ord, s'))
         \<and> (\<exists>more. ord = ord1 @ p # more)
         \<and> reachability_distance (heap s' p) = UNDEFINED
         \<and> (\<exists>ws. rlog s' = rlog s1 @ (p, False, reachability_distance (heap s1 p), UNDEFINED) # ws
                \<and> (\<forall>w\<in>set ws. fst w \<noteq> p))"
proof -
  have m: "0 < min_pts" using assms(2) by simp
  have p: "p \<in> set db" and vis: "set visited \<subseteq> set db" and rem: "set remaining \<subseteq> set db"
    using assms(5) by auto
  obtain o1 t1 where r1: "optics_loop s db visited eps min_pts [] = Some (Inr (o1, t1))"
      "step db s [] t1 []"
    using optics_loop_total[OF assms(3,4,1) m vis, of "[]"] by blast
  then have st1: "step db s [] s1 []" using assms(6) by simp
  have dat1: "\<forall>h. data (heap s1 h) = data (heap s h)" using st1 by (rule step_data)
  have g1: "same_dim s1 db" "dist_below s1 db"
    using assms(3,4) same_dim_same_data[OF dat1] dist_below_same_data[OF dat1] by simp_all
  from expand_cluster_order_total[OF g1 assms(1) m p assms(7), of ord1]
  obtain ord2 s2 where e: "expand_cluster_order s1 db p eps min_pts ord1 = Some (Inr (ord2, s2))"
      "step db s1 [] s2 []" "\<exists>more. ord2 = ord1 @ p # more"
      "is_processed (heap s2 p)" "reachability_distance (heap s2 p) = UNDEFINED"
      "\<exists>ws. rlog s2 = rlog s1 @ (p, False, reachability_distance (heap s1 p), UNDEFINED) # ws
             \<and> (\<forall>w\<in>set ws. fst w \<noteq> p)"
    by blast
  have dat2: "\<forall>h. data (heap s2 h) = data (heap s1 h)" using e(2) by (rule step_data)
  have g2: "same_dim s2 db" "dist_below s2 db"
    using g1 same_dim_same_data[OF dat2] dist_below_same_data[OF dat2] by simp_all
  from optics_loop_total[OF g2 assms(1) m rem, of ord2]
  obtain ord s' where r: "optics_loop s2 db remaining eps min_pts ord2 = Some (Inr (ord, s'))"
      "step db s2 [] s' []" "emitted db s2 s' ord2 ord"
    by blast
  have "optics_loop s1 db (p # remaining) eps min_pts ord1 = Some (Inr (ord, s'))"
    using assms(7) e(1) r(1) by simp
  then have "optics_loop s db (visited @ p # remaining) eps min_pts [] = Some (Inr (ord, s'))"
    using assms(6) by (simp add: optics_loop_append)
  then have a: "optics s db eps min_pts = Some (Inr (ord, s'))"
    using assms(1,5) m by (simp add: optics_def)
  have b: "\<exists>more. ord = ord1 @ p # more" using e(3) r(3) by (auto simp: emitted_def)
  have "heap s' p = heap s2 p" using r(2) e(4) by (rule step_processed)
  then have c: "reachability_distance (heap s' p) = UNDEFINED" using e(5) by simp
  obtain ws where ws: "rlog s2 = rlog s1 @ (p, False, reachability_distance (heap s1 p), UNDEFINED) # ws"
      "\<forall>w\<in>set ws. fst w \<noteq> p"
    using e(6) by blast
  obtain ws' where ws': "rlog s' = rlog s2 @ ws'" "\<forall>w\<in>set ws'. \<not> is_processed (heap s2 (fst w))"
    using r(2) unfolding step_def by blast
  have "\<forall>w\<in>set (ws @ ws'). fst w \<noteq> p" using ws(2) ws'(2) e(4) by auto
  moreover have "rlog s' = rlog s1 @ (p, False, reachability_distance (heap s1 p), UNDEFINED) # (ws @ ws')"
    using ws(1) ws'(1) by simp
  ultimately have d: "\<exists>ws. rlog s' = rlog s1 @ (p, False, reachability_distance (heap s1 p), UNDEFINED) # ws
                \<and> (\<forall>w\<in>set ws. fst w \<noteq> p)"
    by blast
  show ?thesis using e(1,3,5) a b c d by blast
qed

theorem first_emission_undefined_witness:
  "(0::real) \<le> 2 \<and> (1::nat) \<le> 1 \<and> same_dim two_points [0, 1] \<and> dist_below two_points [0, 1]
   \<and> [0, 1] = [] @ (0::nat) # [1]
   \<and> optics_loop two_points [0, 1] [] 2 1 [] = Some (Inr ([], two_points))
   \<and> \<not> is_processed (heap two_points 0)
   \<and> (\<exists>ord s'. optics two_points [0, 1] 2 1 = Some (Inr (ord, s'))
          \<and> (\<exists>more. ord = [] @ 0 # more)
          \<and> reachability_distance (heap s' 0) = UNDEFINED)"
proof -
  have h: "(0::real) \<le> 2" "(1::nat) \<le> 1" by simp_all
  have i: "[0, 1] = [] @ (0::nat) # [1]"
    "optics_loop two_points [0, 1] [] 2 1 [] = Some (Inr ([], two_points))"
    "\<not> is_processed (heap two_points 0)"
    by (simp_all add: two_points_def fresh_point_def)
  show ?thesis
    using first_emission_undefined[OF h two_points_same_dim two_points_dist_below i]
      h two_points_same_dim two_points_dist_below i
    by blast
qed

end
